theory Spec2Isabelle
  imports Main "HOL-Library.Word"
begin

section \<open>The show recorder tool: data model\<close>

text \<open>
  The embedding follows \<^verbatim>\<open>examples/ola-recorder.cpp\<close>. The command line flags
  \<^verbatim>\<open>DEFINE_uint32\<close> are 32-bit unsigned values, the virtual clock
  \<^verbatim>\<open>playback_pos\<close> is a \<^verbatim>\<open>uint64_t\<close>, and the frame counters are
  \<^verbatim>\<open>unsigned int\<close>: all of them are words whose arithmetic wraps around.
\<close>

type_synonym u32 = "32 word"
type_synonym u64 = "64 word"

text \<open>The exit codes of \<^verbatim>\<open>ola/base/SysExits.h\<close> that the tool returns.\<close>

datatype exit_code = EXIT_OK | EXIT_USAGE | EXIT_DATAERR | EXIT_NOINPUT

text \<open>The global flags, as parsed by \<^verbatim>\<open>AppInit\<close>.\<close>

record flags =
  FLAGS_playback :: string
  FLAGS_record :: string
  FLAGS_verify :: string
  FLAGS_universes :: string
  FLAGS_delay :: u32
  FLAGS_duration :: u32
  FLAGS_iterations :: u32
  FLAGS_start :: u32
  FLAGS_stop :: u32

text \<open>
  Modelled from the spec: the struct \<^verbatim>\<open>ShowEntry\<close> is declared in
  \<^verbatim>\<open>examples/ShowLoader.h\<close>, which is not part of the sources at hand. The spec gives
  it a universe id, an unsigned wait in milliseconds and a payload of channel bytes; the
  verifier uses \<^verbatim>\<open>entry.universe\<close> as the \<^verbatim>\<open>unsigned int\<close> key of its counter map and
  adds \<^verbatim>\<open>entry.next_wait\<close> to the clock, so both fields are taken as 32-bit unsigned.
\<close>

record ShowEntry =
  universe :: u32
  next_wait :: u32
  buffer :: "8 word list"

subsection \<open>The show loader\<close>

text \<open>
  Modelled from the spec: the class \<^verbatim>\<open>ShowLoader\<close> (\<^verbatim>\<open>examples/ShowLoader.h\<close> and its
  implementation) is missing from the sources. Following the spec, a persisted show is a
  sequence of records, each of them well formed or malformed, with an unambiguous end; a
  loader owns one forward-only cursor, here the records not yet consumed. \<^verbatim>\<open>Load\<close> fails
  when the source cannot be opened at all. \<^verbatim>\<open>NextEntry\<close> advances the cursor by exactly
  one record when it yields an entry; at the end of the stream and at a malformed record it
  yields the terminal state and does not advance. The states \<open>Entry\<close>, \<open>EndOfStream\<close>
  and \<open>FormatError\<close> are the spec's names; the code calls the first two
  \<^verbatim>\<open>ShowLoader::OK\<close> and \<^verbatim>\<open>ShowLoader::END_OF_FILE\<close>.
\<close>

datatype show_record = Wellformed ShowEntry | Malformed

datatype LoaderState = Entry ShowEntry | EndOfStream | FormatError

type_synonym ShowLoader = "show_record list"

definition Load :: "show_record list option \<Rightarrow> ShowLoader option" where
  "Load source = source"

fun NextEntry :: "ShowLoader \<Rightarrow> LoaderState \<times> ShowLoader" where
  "NextEntry [] = (EndOfStream, [])"
| "NextEntry (Wellformed e # rest) = (Entry e, rest)"
| "NextEntry (Malformed # rest) = (FormatError, Malformed # rest)"

text \<open>The cursor after \<open>n\<close> further calls of \<^verbatim>\<open>NextEntry\<close>.\<close>

fun after_calls :: "nat \<Rightarrow> ShowLoader \<Rightarrow> ShowLoader" where
  "after_calls 0 loader = loader"
| "after_calls (Suc n) loader = after_calls n (snd (NextEntry loader))"

fun is_terminal :: "LoaderState \<Rightarrow> bool" where
  "is_terminal (Entry e) = False"
| "is_terminal EndOfStream = True"
| "is_terminal FormatError = True"

subsection \<open>The frame counters\<close>

text \<open>
  \<^verbatim>\<open>map<unsigned int, unsigned int> frames_by_universe\<close> is an ordered map: it is kept as
  an association list with strictly increasing keys, which is also the order in which the
  summary prints it. \<open>increment\<close> is \<^verbatim>\<open>frames_by_universe[u]++\<close>: a missing key is
  inserted with the value 0 and then incremented.
\<close>

type_synonym frame_map = "(u32 \<times> u32) list"

fun increment :: "u32 \<Rightarrow> frame_map \<Rightarrow> frame_map" where
  "increment u [] = [(u, 1)]"
| "increment u ((k, c) # m) =
     (if u = k then (k, c + 1) # m
      else if u < k then (u, 1) # (k, c) # m
      else (k, c) # increment u m)"

text \<open>The counter of a universe, 0 for a universe that has no counter.\<close>

definition frame_count :: "frame_map \<Rightarrow> u32 \<Rightarrow> u32" where
  "frame_count m u = (case map_of m u of None \<Rightarrow> 0 | Some c \<Rightarrow> c)"

definition ClampVerifyFrameCount :: "frame_map \<Rightarrow> frame_map" where
  "ClampVerifyFrameCount frames = map (\<lambda>(k, c). (k, if c > 1 then 1 else c)) frames"

section \<open>Verifying a show\<close>

text \<open>
  The \<^verbatim>\<open>while (true)\<close> loop of \<^verbatim>\<open>VerifyShow\<close>. Its state is the loader, the clock
  \<^verbatim>\<open>playback_pos\<close>, the flag \<^verbatim>\<open>playing\<close> and the counters; it returns the last loader
  state together with the clock, the flag and the counters. Leaving the loop at the stop
  time keeps the state \<open>Entry\<close> of the entry just read.
\<close>

function VerifyShow_loop ::
  "flags \<Rightarrow> ShowLoader \<Rightarrow> u64 \<Rightarrow> bool \<Rightarrow> frame_map \<Rightarrow> LoaderState \<times> u64 \<times> bool \<times> frame_map"
where
  "VerifyShow_loop f loader playback_pos playing frames =
     (case NextEntry loader of
        (Entry entry, loader') \<Rightarrow>
          (let playback_pos' = playback_pos + ucast (next_wait entry);
               frames' = increment (universe entry) frames
           in if FLAGS_stop f > 0 \<and> playback_pos' \<ge> ucast (FLAGS_stop f)
              then (Entry entry, ucast (FLAGS_stop f), playing, frames')
              else if \<not> playing \<and> playback_pos' > ucast (FLAGS_start f)
              then VerifyShow_loop f loader' playback_pos' True (ClampVerifyFrameCount frames')
              else VerifyShow_loop f loader' playback_pos' playing frames')
      | (EndOfStream, loader') \<Rightarrow> (EndOfStream, playback_pos, playing, frames)
      | (FormatError, loader') \<Rightarrow> (FormatError, playback_pos, playing, frames))"
  by pat_completeness auto
termination
  apply (relation "measure (\<lambda>(f, loader, playback_pos, playing, frames). length loader)")
    apply simp
  subgoal for f loader playback_pos playing frames x y entry
    by (cases loader rule: NextEntry.cases) auto
  subgoal for f loader playback_pos playing frames x y entry
    by (cases loader rule: NextEntry.cases) auto
  done

declare VerifyShow_loop.simps [simp del]

text \<open>
  What \<^verbatim>\<open>VerifyShow\<close> prints: the two warnings, the counters in key order, the total
  number of frames and the playback time in milliseconds (the code prints it divided by
  1000.0).
\<close>

record summary =
  warn_start :: bool
  warn_stop :: bool
  frames_by_universe :: frame_map
  total :: u32
  total_time :: u64

definition VerifyShow :: "flags \<Rightarrow> show_record list option \<Rightarrow> exit_code \<times> summary option" where
  "VerifyShow f source =
     (case Load source of
        None \<Rightarrow> (EXIT_NOINPUT, None)
      | Some loader \<Rightarrow>
          (case VerifyShow_loop f loader 0 False [] of
             (state, playback_pos, playing, frames) \<Rightarrow>
               (let tt = (if playback_pos \<ge> ucast (FLAGS_start f)
                          then playback_pos - ucast (FLAGS_start f) else 0);
                    s = \<lparr> warn_start = (ucast (FLAGS_start f) > playback_pos),
                          warn_stop = (ucast (FLAGS_stop f) > playback_pos),
                          frames_by_universe = frames,
                          total = sum_list (map snd frames),
                          total_time = tt \<rparr>
                in (case state of
                      Entry entry \<Rightarrow> (EXIT_OK, Some s)
                    | EndOfStream \<Rightarrow> (EXIT_OK, Some s)
                    | FormatError \<Rightarrow> (EXIT_DATAERR, Some s)))))"

section \<open>The entry point\<close>

text \<open>
  \<^verbatim>\<open>RecordShow\<close> first checks the list of universes: it ends the program with
  \<^verbatim>\<open>EXIT_USAGE\<close> when \<^verbatim>\<open>--universes\<close> is empty, and when one of the strings the list is
  split into is not a universe number; nothing has been done by then. The library
  functions \<^verbatim>\<open>ola::StringSplit\<close> and \<^verbatim>\<open>ola::StringToInt\<close> and the recorder itself
  (initialising it, installing the signal handlers, recording, printing the frame count)
  are not part of the sources at hand and are parameters; the recorder takes the file
  name and the universes, and the state of the world.
\<close>

fun parse_universes :: "(string \<Rightarrow> u32 option) \<Rightarrow> string list \<Rightarrow> u32 list option" where
  "parse_universes StringToInt [] = Some []"
| "parse_universes StringToInt (str # universe_strs) =
     (case StringToInt str of
        None \<Rightarrow> None
      | Some u \<Rightarrow> map_option ((#) u) (parse_universes StringToInt universe_strs))"

definition RecordShow ::
  "flags \<Rightarrow> (string \<Rightarrow> string list) \<Rightarrow> (string \<Rightarrow> u32 option) \<Rightarrow>
   (string \<Rightarrow> u32 list \<Rightarrow> 'w \<Rightarrow> exit_code \<times> 'w) \<Rightarrow> 'w \<Rightarrow> exit_code \<times> 'w"
where
  "RecordShow f StringSplit StringToInt show_recorder w =
     (if FLAGS_universes f = [] then (EXIT_USAGE, w)
      else case parse_universes StringToInt (StringSplit (FLAGS_universes f)) of
             None \<Rightarrow> (EXIT_USAGE, w)
           | Some universes \<Rightarrow> show_recorder (FLAGS_record f) universes w)"

text \<open>
  \<^verbatim>\<open>main\<close> checks the window and then calls at most one of the three operations. The
  player is not part of the sources at hand, so the operations are parameters: each of
  them takes the state of the world (files, the lighting network, the terminal) and
  returns an exit code with the new state. Log messages and the usage text printed when
  no primary flag is set are left out.
\<close>

definition main ::
  "flags \<Rightarrow> ('w \<Rightarrow> exit_code \<times> 'w) \<Rightarrow> ('w \<Rightarrow> exit_code \<times> 'w) \<Rightarrow>
   (string \<Rightarrow> 'w \<Rightarrow> exit_code \<times> 'w) \<Rightarrow> 'w \<Rightarrow> exit_code \<times> 'w"
where
  "main f PlaybackShow_op RecordShow_op VerifyShow_op w =
     (if FLAGS_stop f > 0 \<and> FLAGS_stop f < FLAGS_start f then (EXIT_USAGE, w)
      else if FLAGS_playback f \<noteq> [] then PlaybackShow_op w
      else if FLAGS_record f \<noteq> [] then RecordShow_op w
      else if FLAGS_verify f \<noteq> [] then VerifyShow_op (FLAGS_verify f) w
      else (EXIT_OK, w))"


section \<open>Notions used to state the properties\<close>

text \<open>
  The entries a loader yields before its terminal state: the well-formed records in front
  of the first malformed one.
\<close>

fun loaded_entries :: "show_record list \<Rightarrow> ShowEntry list" where
  "loaded_entries (Wellformed e # rs) = e # loaded_entries rs"
| "loaded_entries rs = []"

text \<open>
  The spec's derived operation of the entry model: the cumulative time of a prefix is the
  sum of its waits. It is computed in the type of the verifier's clock, a 64-bit unsigned
  value, so it is the sum modulo \<open>2 ^ 64\<close>.
\<close>

definition cumulative_time :: "ShowEntry list \<Rightarrow> u64" where
  "cumulative_time es = sum_list (map (\<lambda>e. ucast (next_wait e)) es)"

text \<open>
  Whether a scan that starts at clock \<open>p\<close> ends at the stop time, and the entries it
  counts: all of them up to and including the first one at which the clock reaches a
  nonzero stop time.
\<close>

fun stop_clipped :: "flags \<Rightarrow> u64 \<Rightarrow> ShowEntry list \<Rightarrow> bool" where
  "stop_clipped f p [] = False"
| "stop_clipped f p (e # es) =
     ((FLAGS_stop f > 0 \<and> p + ucast (next_wait e) \<ge> ucast (FLAGS_stop f))
      \<or> stop_clipped f (p + ucast (next_wait e)) es)"

fun counted_entries :: "flags \<Rightarrow> u64 \<Rightarrow> ShowEntry list \<Rightarrow> ShowEntry list" where
  "counted_entries f p [] = []"
| "counted_entries f p (e # es) =
     (if FLAGS_stop f > 0 \<and> p + ucast (next_wait e) \<ge> ucast (FLAGS_stop f) then [e]
      else e # counted_entries f (p + ucast (next_wait e)) es)"

text \<open>
  Where the clock stands after entry \<open>i\<close> of a show, relative to the window: beyond the
  start time, at or beyond a nonzero stop time; and the first entry that takes the clock
  beyond the start time.
\<close>

definition crosses_start :: "flags \<Rightarrow> ShowEntry list \<Rightarrow> nat \<Rightarrow> bool" where
  "crosses_start f es i = (ucast (FLAGS_start f) < cumulative_time (take (Suc i) es))"

definition reaches_stop :: "flags \<Rightarrow> ShowEntry list \<Rightarrow> nat \<Rightarrow> bool" where
  "reaches_stop f es i =
     (FLAGS_stop f > 0 \<and> ucast (FLAGS_stop f) \<le> cumulative_time (take (Suc i) es))"

definition first_crossing :: "flags \<Rightarrow> ShowEntry list \<Rightarrow> nat \<Rightarrow> bool" where
  "first_crossing f es i =
     (i < length es \<and> crosses_start f es i \<and> (\<forall>j\<in>{..<i}. \<not> crosses_start f es j))"

text \<open>Counting every entry of a list, without any clamp.\<close>

fun count_frames :: "ShowEntry list \<Rightarrow> frame_map \<Rightarrow> frame_map" where
  "count_frames [] m = m"
| "count_frames (e # es) m = count_frames es (increment (universe e) m)"

text \<open>
  The entries of a show up to and including the first one whose wait is not zero.
\<close>

fun upto_first_nonzero :: "ShowEntry list \<Rightarrow> ShowEntry list" where
  "upto_first_nonzero [] = []"
| "upto_first_nonzero (e # es) = (if next_wait e \<noteq> 0 then [e] else e # upto_first_nonzero es)"

text \<open>
  The loop of \<^verbatim>\<open>VerifyShow\<close> once more, with a log of the calls of
  \<^verbatim>\<open>ClampVerifyFrameCount\<close>: the index of the entry at which the call is made (the first
  entry read has index \<open>n\<close>) and the counters it is called on. The first component of
  the result is the result of the loop itself, see \<open>loop_log_erase\<close>.
\<close>

fun VerifyShow_loop_log ::
  "flags \<Rightarrow> show_record list \<Rightarrow> u64 \<Rightarrow> bool \<Rightarrow> frame_map \<Rightarrow> nat \<Rightarrow>
   (LoaderState \<times> u64 \<times> bool \<times> frame_map) \<times> (nat \<times> frame_map) list"
where
  "VerifyShow_loop_log f [] p pl fr n = ((EndOfStream, p, pl, fr), [])"
| "VerifyShow_loop_log f (Malformed # rs) p pl fr n = ((FormatError, p, pl, fr), [])"
| "VerifyShow_loop_log f (Wellformed e # rs) p pl fr n =
     (let p' = p + ucast (next_wait e);
          fr' = increment (universe e) fr
      in if FLAGS_stop f > 0 \<and> p' \<ge> ucast (FLAGS_stop f)
         then ((Entry e, ucast (FLAGS_stop f), pl, fr'), [])
         else if \<not> pl \<and> p' > ucast (FLAGS_start f)
         then (let r = VerifyShow_loop_log f rs p' True (ClampVerifyFrameCount fr') (Suc n)
               in (fst r, (n, fr') # snd r))
         else VerifyShow_loop_log f rs p' pl fr' (Suc n))"

text \<open>What a run of \<^verbatim>\<open>VerifyShow\<close> reports for one universe, and as playback time.\<close>

definition reported_count :: "exit_code \<times> summary option \<Rightarrow> u32 \<Rightarrow> u32" where
  "reported_count r u =
     (case snd r of None \<Rightarrow> 0 | Some s \<Rightarrow> frame_count (frames_by_universe s) u)"

definition reported_time :: "exit_code \<times> summary option \<Rightarrow> u64 option" where
  "reported_time r = map_option total_time (snd r)"

subsection \<open>The inputs of the scenarios\<close>

text \<open>
  The flags of \<^verbatim>\<open>--verify show --start a --stop b\<close>, every other flag at its default,
  and a well-formed record with an empty payload.
\<close>

definition verify_flags :: "u32 \<Rightarrow> u32 \<Rightarrow> flags" where
  "verify_flags a b =
     \<lparr> FLAGS_playback = [], FLAGS_record = [], FLAGS_verify = ''show'',
       FLAGS_universes = [], FLAGS_delay = 0, FLAGS_duration = 0, FLAGS_iterations = 1,
       FLAGS_start = a, FLAGS_stop = b \<rparr>"

definition show_entry :: "u32 \<Rightarrow> u32 \<Rightarrow> ShowEntry" where
  "show_entry u w = \<lparr> universe = u, next_wait = w, buffer = [] \<rparr>"

definition scenario_show :: "show_record list" where
  "scenario_show =
     [Wellformed (show_entry 1 100), Wellformed (show_entry 1 200), Wellformed (show_entry 2 50)]"

text \<open>
  A show whose first entries arrive in the same millisecond, and a show of
  \<open>2 ^ 32 + 2\<close> entries that are each \<open>2 ^ 32 - 1\<close> ms after the previous one.
\<close>

definition zero_wait_show :: "show_record list" where
  "zero_wait_show =
     [Wellformed (show_entry 1 0), Wellformed (show_entry 1 0), Wellformed (show_entry 1 100)]"

definition long_show :: "ShowEntry list" where
  "long_show = replicate 4294967298 (show_entry 1 4294967295)"


text \<open>
  Operations that stand for the player, the recorder and the verifier when \<^verbatim>\<open>main\<close> is
  run on a concrete input: the world is the number of operations invoked so far.
\<close>

definition invoked :: "nat \<Rightarrow> exit_code \<times> nat" where
  "invoked w = (EXIT_OK, Suc w)"

definition invoked_on :: "string \<Rightarrow> nat \<Rightarrow> exit_code \<times> nat" where
  "invoked_on filename w = (EXIT_OK, Suc w)"

text \<open>
  Stand-ins for the recorder and the two library functions, for the same purpose: the
  list is not split, and no string is a number.
\<close>

definition recording_on :: "string \<Rightarrow> u32 list \<Rightarrow> nat \<Rightarrow> exit_code \<times> nat" where
  "recording_on filename universes w = (EXIT_OK, Suc w)"

definition unsplit :: "string \<Rightarrow> string list" where
  "unsplit str = [str]"

definition no_number :: "string \<Rightarrow> u32 option" where
  "no_number str = None"


section \<open>The loader's terminal states\<close>

lemma NextEntry_terminal:
  "is_terminal (fst (NextEntry loader)) \<Longrightarrow> snd (NextEntry loader) = loader"
  by (cases loader rule: NextEntry.cases) simp_all

lemma after_calls_terminal:
  "is_terminal (fst (NextEntry loader)) \<Longrightarrow> after_calls n loader = loader"
  by (induction n) (simp_all add: NextEntry_terminal)

text \<open>
  C8. Once \<^verbatim>\<open>NextEntry\<close> has returned \<open>EndOfStream\<close> or \<open>FormatError\<close>, the cursor
  it leaves is the cursor it was called on, and after any number of further calls the
  cursor is still the same and the next call returns the same terminal state.
\<close>

theorem NextEntry_terminal_idempotent:
  "NextEntry loader = (st, loader') \<Longrightarrow> is_terminal st \<Longrightarrow>
   loader' = loader \<and> after_calls n loader' = loader' \<and> NextEntry (after_calls n loader') = (st, loader')"
proof -
  assume ne: "NextEntry loader = (st, loader')" and t: "is_terminal st"
  from ne t have final: "is_terminal (fst (NextEntry loader))"
    by simp
  from NextEntry_terminal [OF final] ne have same: "loader' = loader"
    by simp
  with after_calls_terminal [OF final, of n] ne show ?thesis
    by simp
qed

theorem NextEntry_terminal_idempotent_witness:
  "NextEntry [Malformed, Wellformed (show_entry 1 100)]
     = (FormatError, [Malformed, Wellformed (show_entry 1 100)]) \<and>
   is_terminal FormatError \<and>
   after_calls 3 [Malformed, Wellformed (show_entry 1 100)]
     = [Malformed, Wellformed (show_entry 1 100)] \<and>
   NextEntry (after_calls 3 [Malformed, Wellformed (show_entry 1 100)])
     = (FormatError, [Malformed, Wellformed (show_entry 1 100)])"
  using NextEntry_terminal_idempotent
    [of "[Malformed, Wellformed (show_entry 1 100)]" FormatError
        "[Malformed, Wellformed (show_entry 1 100)]" 3]
  by simp

section \<open>Properties of the entry point\<close>

text \<open>
  C6 (scenario E). With a nonzero stop time below the start time, \<^verbatim>\<open>main\<close> returns
  \<^verbatim>\<open>EXIT_USAGE\<close> and leaves the world as it was, whatever the three operations would do
  and whatever the primary flags are: none of them is invoked.
\<close>

theorem main_invalid_window:
  "0 < FLAGS_stop f \<Longrightarrow> FLAGS_stop f < FLAGS_start f \<Longrightarrow>
   main f PlaybackShow_op RecordShow_op VerifyShow_op w = (EXIT_USAGE, w)"
  by (simp add: main_def)

theorem main_invalid_window_witness:
  "0 < FLAGS_stop (verify_flags 200 100) \<and>
   FLAGS_stop (verify_flags 200 100) < FLAGS_start (verify_flags 200 100) \<and>
   main (verify_flags 200 100) invoked invoked invoked_on 0 = (EXIT_USAGE, 0)"
  using main_invalid_window [of "verify_flags 200 100" invoked invoked invoked_on 0]
  by (simp add: verify_flags_def)

text \<open>
  C5, as the code has it. \<^verbatim>\<open>main\<close> does not look at how many primary flags are set.
  With a valid window it runs exactly one operation, the first one in the order playback,
  record, verify whose flag is set, and the program ends with the exit code and the
  effects of that operation; what the primary flags of lower priority are set to makes no
  difference. So with \<^verbatim>\<open>--playback\<close> set the result is that of the player whatever
  \<^verbatim>\<open>--record\<close> and \<^verbatim>\<open>--verify\<close> are. With \<^verbatim>\<open>--record\<close> set and no \<^verbatim>\<open>--playback\<close> the
  result is that of \<^verbatim>\<open>RecordShow\<close> whatever \<^verbatim>\<open>--verify\<close> is: \<^verbatim>\<open>EXIT_USAGE\<close> with
  nothing done when \<^verbatim>\<open>--universes\<close> is empty or holds a string that is not a universe
  number, and what the recorder returns otherwise. With only \<^verbatim>\<open>--verify\<close> set the
  result is that of the verifier.
\<close>

theorem main_several_primary_flags:
  "\<not> (0 < FLAGS_stop f \<and> FLAGS_stop f < FLAGS_start f) \<Longrightarrow>
   main f PlaybackShow_op (RecordShow f StringSplit StringToInt show_recorder) VerifyShow_op w =
     (if FLAGS_playback f \<noteq> [] then PlaybackShow_op w
      else if FLAGS_record f \<noteq> [] then
        (if FLAGS_universes f = [] then (EXIT_USAGE, w)
         else case parse_universes StringToInt (StringSplit (FLAGS_universes f)) of
                None \<Rightarrow> (EXIT_USAGE, w)
              | Some universes \<Rightarrow> show_recorder (FLAGS_record f) universes w)
      else if FLAGS_verify f \<noteq> [] then VerifyShow_op (FLAGS_verify f) w
      else (EXIT_OK, w)) \<and>
   (FLAGS_playback f \<noteq> [] \<longrightarrow>
      main (f\<lparr>FLAGS_record := r, FLAGS_verify := v\<rparr>) PlaybackShow_op
        (RecordShow (f\<lparr>FLAGS_record := r, FLAGS_verify := v\<rparr>) StringSplit StringToInt show_recorder)
        VerifyShow_op w = PlaybackShow_op w) \<and>
   (FLAGS_playback f = [] \<and> FLAGS_record f \<noteq> [] \<longrightarrow>
      main (f\<lparr>FLAGS_verify := v\<rparr>) PlaybackShow_op
        (RecordShow (f\<lparr>FLAGS_verify := v\<rparr>) StringSplit StringToInt show_recorder)
        VerifyShow_op w = RecordShow f StringSplit StringToInt show_recorder w) \<and>
   (FLAGS_playback f = [] \<and> FLAGS_record f \<noteq> [] \<and> FLAGS_universes f = [] \<longrightarrow>
      main (f\<lparr>FLAGS_verify := v\<rparr>) PlaybackShow_op
        (RecordShow (f\<lparr>FLAGS_verify := v\<rparr>) StringSplit StringToInt show_recorder)
        VerifyShow_op w = (EXIT_USAGE, w))"
proof -
  assume window: "\<not> (0 < FLAGS_stop f \<and> FLAGS_stop f < FLAGS_start f)"
  have chain: "main f PlaybackShow_op (RecordShow f StringSplit StringToInt show_recorder) VerifyShow_op w =
     (if FLAGS_playback f \<noteq> [] then PlaybackShow_op w
      else if FLAGS_record f \<noteq> [] then
        (if FLAGS_universes f = [] then (EXIT_USAGE, w)
         else case parse_universes StringToInt (StringSplit (FLAGS_universes f)) of
                None \<Rightarrow> (EXIT_USAGE, w)
              | Some universes \<Rightarrow> show_recorder (FLAGS_record f) universes w)
      else if FLAGS_verify f \<noteq> [] then VerifyShow_op (FLAGS_verify f) w
      else (EXIT_OK, w))"
    using window by (auto simp: main_def RecordShow_def)
  have by_player: "main (f\<lparr>FLAGS_record := r, FLAGS_verify := v\<rparr>) PlaybackShow_op
        (RecordShow (f\<lparr>FLAGS_record := r, FLAGS_verify := v\<rparr>) StringSplit StringToInt show_recorder)
        VerifyShow_op w = PlaybackShow_op w" if "FLAGS_playback f \<noteq> []"
    using window that by (auto simp: main_def)
  have by_recorder: "main (f\<lparr>FLAGS_verify := v\<rparr>) PlaybackShow_op
        (RecordShow (f\<lparr>FLAGS_verify := v\<rparr>) StringSplit StringToInt show_recorder)
        VerifyShow_op w = RecordShow f StringSplit StringToInt show_recorder w"
    if "FLAGS_playback f = [] \<and> FLAGS_record f \<noteq> []"
    using window that by (auto simp: main_def RecordShow_def split: option.splits)
  have no_universes: "main (f\<lparr>FLAGS_verify := v\<rparr>) PlaybackShow_op
        (RecordShow (f\<lparr>FLAGS_verify := v\<rparr>) StringSplit StringToInt show_recorder)
        VerifyShow_op w = (EXIT_USAGE, w)"
    if "FLAGS_playback f = [] \<and> FLAGS_record f \<noteq> [] \<and> FLAGS_universes f = []"
    using by_recorder that by (simp add: RecordShow_def)
  from chain by_player by_recorder no_universes show ?thesis
    by (intro conjI impI)
qed

theorem main_several_primary_flags_witness:
  "main ((verify_flags 0 0)\<lparr>FLAGS_playback := ''other''\<rparr>) invoked
     (RecordShow ((verify_flags 0 0)\<lparr>FLAGS_playback := ''other''\<rparr>) unsplit no_number recording_on)
     invoked_on 0 = invoked 0 \<and>
   main ((verify_flags 0 0)\<lparr>FLAGS_record := ''rec.out''\<rparr>) invoked
     (RecordShow ((verify_flags 0 0)\<lparr>FLAGS_record := ''rec.out''\<rparr>) unsplit no_number recording_on)
     invoked_on 0 = (EXIT_USAGE, 0)"
proof -
  let ?p = "(verify_flags 0 0)\<lparr>FLAGS_playback := ''other''\<rparr>"
  let ?r = "(verify_flags 0 0)\<lparr>FLAGS_record := ''rec.out''\<rparr>"
  have wp: "\<not> (0 < FLAGS_stop ?p \<and> FLAGS_stop ?p < FLAGS_start ?p)"
    and wr: "\<not> (0 < FLAGS_stop ?r \<and> FLAGS_stop ?r < FLAGS_start ?r)"
    by (simp_all add: verify_flags_def)
  have a: "main ?p invoked (RecordShow ?p unsplit no_number recording_on) invoked_on 0 = invoked 0"
    using main_several_primary_flags [OF wp, of invoked unsplit no_number recording_on invoked_on 0,
        THEN conjunct1]
    by (simp add: verify_flags_def)
  have b: "main ?r invoked (RecordShow ?r unsplit no_number recording_on) invoked_on 0 = (EXIT_USAGE, 0)"
    using main_several_primary_flags [OF wr, of invoked unsplit no_number recording_on invoked_on 0,
        THEN conjunct1]
    by (simp add: verify_flags_def)
  from a b show ?thesis
    by (intro conjI)
qed


text \<open>
  The claim C5 as stated fails: with both \<^verbatim>\<open>--playback other\<close> and \<^verbatim>\<open>--verify show\<close>
  set, \<^verbatim>\<open>main\<close> does not return \<^verbatim>\<open>EXIT_USAGE\<close> with the world untouched; one operation
  has been invoked.
\<close>

theorem main_two_primary_flags_counterexample:
  "FLAGS_playback ((verify_flags 0 0)\<lparr>FLAGS_playback := ''other''\<rparr>) \<noteq> [] \<and>
   FLAGS_verify ((verify_flags 0 0)\<lparr>FLAGS_playback := ''other''\<rparr>) \<noteq> [] \<and>
   main ((verify_flags 0 0)\<lparr>FLAGS_playback := ''other''\<rparr>) invoked invoked invoked_on 0
     \<noteq> (EXIT_USAGE, 0) \<and>
   main ((verify_flags 0 0)\<lparr>FLAGS_playback := ''other''\<rparr>) invoked invoked invoked_on 0
     = (EXIT_OK, 1)"
  by (simp add: main_def verify_flags_def invoked_def)

section \<open>The verifier's loop, record by record\<close>

lemma loop_Nil [simp]: "VerifyShow_loop f [] p pl fr = (EndOfStream, p, pl, fr)"
  by (simp add: VerifyShow_loop.simps)

lemma loop_Malformed [simp]:
  "VerifyShow_loop f (Malformed # rs) p pl fr = (FormatError, p, pl, fr)"
  by (simp add: VerifyShow_loop.simps)

lemma loop_Wellformed:
  "VerifyShow_loop f (Wellformed e # rs) p pl fr =
     (if FLAGS_stop f > 0 \<and> p + ucast (next_wait e) \<ge> ucast (FLAGS_stop f)
      then (Entry e, ucast (FLAGS_stop f), pl, increment (universe e) fr)
      else if \<not> pl \<and> p + ucast (next_wait e) > ucast (FLAGS_start f)
      then VerifyShow_loop f rs (p + ucast (next_wait e)) True
             (ClampVerifyFrameCount (increment (universe e) fr))
      else VerifyShow_loop f rs (p + ucast (next_wait e)) pl (increment (universe e) fr))"
  by (subst VerifyShow_loop.simps) (simp add: Let_def)

subsection \<open>The log of clamp calls\<close>

lemma loop_log_erase: "fst (VerifyShow_loop_log f rs p pl fr n) = VerifyShow_loop f rs p pl fr"
proof (induction rs arbitrary: p pl fr n)
  case Nil
  show ?case by simp
next
  case (Cons r rs)
  show ?case
  proof (cases r)
    case Malformed
    then show ?thesis by simp
  next
    case (Wellformed e)
    then show ?thesis
      using Cons.IH by (simp add: loop_Wellformed Let_def)
  qed
qed

lemma loop_log_playing: "snd (VerifyShow_loop_log f rs p True fr n) = []"
  by (induction rs arbitrary: p fr n rule: loaded_entries.induct) (simp_all add: Let_def)

lemma cumulative_time_Cons: "cumulative_time (e # es) = ucast (next_wait e) + cumulative_time es"
  by (simp add: cumulative_time_def)

lemma loop_log_calls:
  "snd (VerifyShow_loop_log f rs p False fr n) = [] \<or>
   (\<exists>i m. snd (VerifyShow_loop_log f rs p False fr n) = [(n + i, m)] \<and>
      i < length (loaded_entries rs) \<and>
      m = count_frames (take (Suc i) (loaded_entries rs)) fr \<and>
      ucast (FLAGS_start f) < p + cumulative_time (take (Suc i) (loaded_entries rs)) \<and>
      (\<forall>j<i. \<not> ucast (FLAGS_start f) < p + cumulative_time (take (Suc j) (loaded_entries rs))) \<and>
      (\<forall>j\<le>i. \<not> (FLAGS_stop f > 0 \<and> ucast (FLAGS_stop f) \<le> p + cumulative_time (take (Suc j) (loaded_entries rs)))))"
proof (induction rs arbitrary: p fr n)
  case Nil
  show ?case by simp
next
  case (Cons r rs)
  show ?case
  proof (cases r)
    case Malformed
    then show ?thesis by simp
  next
    case (Wellformed e)
    let ?p = "p + ucast (next_wait e)"
    let ?fr = "increment (universe e) fr"
    show ?thesis
    proof (cases "FLAGS_stop f > 0 \<and> ?p \<ge> ucast (FLAGS_stop f)")
      case True
      with Wellformed show ?thesis by (simp add: Let_def)
    next
      case nostop: False
      show ?thesis
      proof (cases "?p > ucast (FLAGS_start f)")
        case True
        with nostop Wellformed have "snd (VerifyShow_loop_log f (r # rs) p False fr n) = [(n + 0, ?fr)]"
          using loop_log_playing [of f rs ?p "ClampVerifyFrameCount ?fr" "Suc n"]
          by (simp add: Let_def)
        moreover have "ucast (FLAGS_start f) < p + cumulative_time (take (Suc 0) (loaded_entries (r # rs)))"
          using True Wellformed by (simp add: cumulative_time_def)
        moreover have "\<forall>j\<le>0. \<not> (FLAGS_stop f > 0 \<and> ucast (FLAGS_stop f) \<le> p + cumulative_time (take (Suc j) (loaded_entries (r # rs))))"
          using nostop Wellformed by (simp add: cumulative_time_def)
        ultimately show ?thesis using Wellformed
          by (intro disjI2 exI [of _ 0] exI [of _ ?fr]) simp
      next
        case False
        with nostop Wellformed have eq: "snd (VerifyShow_loop_log f (r # rs) p False fr n)
            = snd (VerifyShow_loop_log f rs ?p False ?fr (Suc n))"
          by (auto simp: Let_def)
        from Cons.IH [of ?p ?fr "Suc n"] show ?thesis
        proof
          assume "snd (VerifyShow_loop_log f rs ?p False ?fr (Suc n)) = []"
          with eq show ?thesis by simp
        next
          assume "\<exists>i m. snd (VerifyShow_loop_log f rs ?p False ?fr (Suc n)) = [(Suc n + i, m)] \<and>
            i < length (loaded_entries rs) \<and>
            m = count_frames (take (Suc i) (loaded_entries rs)) ?fr \<and>
            ucast (FLAGS_start f) < ?p + cumulative_time (take (Suc i) (loaded_entries rs)) \<and>
            (\<forall>j<i. \<not> ucast (FLAGS_start f) < ?p + cumulative_time (take (Suc j) (loaded_entries rs))) \<and>
            (\<forall>j\<le>i. \<not> (FLAGS_stop f > 0 \<and> ucast (FLAGS_stop f) \<le> ?p + cumulative_time (take (Suc j) (loaded_entries rs))))"
          then obtain i m where i:
            "snd (VerifyShow_loop_log f rs ?p False ?fr (Suc n)) = [(Suc n + i, m)]"
            "i < length (loaded_entries rs)"
            "m = count_frames (take (Suc i) (loaded_entries rs)) ?fr"
            "ucast (FLAGS_start f) < ?p + cumulative_time (take (Suc i) (loaded_entries rs))"
            "\<forall>j<i. \<not> ucast (FLAGS_start f) < ?p + cumulative_time (take (Suc j) (loaded_entries rs))"
            "\<forall>j\<le>i. \<not> (FLAGS_stop f > 0 \<and> ucast (FLAGS_stop f) \<le> ?p + cumulative_time (take (Suc j) (loaded_entries rs)))"
            by blast
          have step: "\<And>k. p + cumulative_time (take (Suc (Suc k)) (loaded_entries (r # rs)))
              = ?p + cumulative_time (take (Suc k) (loaded_entries rs))"
            using Wellformed by (simp add: cumulative_time_def add.assoc)
          have zero: "p + cumulative_time (take (Suc 0) (loaded_entries (r # rs))) = ?p"
            using Wellformed by (simp add: cumulative_time_def)
          have a: "\<forall>j<Suc i. \<not> ucast (FLAGS_start f) < p + cumulative_time (take (Suc j) (loaded_entries (r # rs)))"
          proof (intro allI impI)
            fix j assume "j < Suc i"
            show "\<not> ucast (FLAGS_start f) < p + cumulative_time (take (Suc j) (loaded_entries (r # rs)))"
            proof (cases j)
              case 0
              then show ?thesis using False zero by simp
            next
              case (Suc k)
              with \<open>j < Suc i\<close> have "k < i" by simp
              with i(5) have "\<not> ucast (FLAGS_start f) < ?p + cumulative_time (take (Suc k) (loaded_entries rs))"
                by blast
              then show ?thesis unfolding Suc step .
            qed
          qed
          have b: "\<forall>j\<le>Suc i. \<not> (FLAGS_stop f > 0 \<and> ucast (FLAGS_stop f) \<le> p + cumulative_time (take (Suc j) (loaded_entries (r # rs))))"
          proof (intro allI impI)
            fix j assume "j \<le> Suc i"
            show "\<not> (FLAGS_stop f > 0 \<and> ucast (FLAGS_stop f) \<le> p + cumulative_time (take (Suc j) (loaded_entries (r # rs))))"
            proof (cases j)
              case 0
              then show ?thesis using nostop zero by simp
            next
              case (Suc k)
              with \<open>j \<le> Suc i\<close> have "k \<le> i" by simp
              with i(6) have "\<not> (FLAGS_stop f > 0 \<and> ucast (FLAGS_stop f) \<le> ?p + cumulative_time (take (Suc k) (loaded_entries rs)))"
                by blast
              then show ?thesis unfolding Suc step .
            qed
          qed
          have "snd (VerifyShow_loop_log f (r # rs) p False fr n) = [(n + Suc i, m)]"
            using eq i(1) by simp
          moreover have "Suc i < length (loaded_entries (r # rs))"
            using i(2) Wellformed by simp
          moreover have "m = count_frames (take (Suc (Suc i)) (loaded_entries (r # rs))) fr"
            using i(3) Wellformed by simp
          moreover have "ucast (FLAGS_start f) < p + cumulative_time (take (Suc (Suc i)) (loaded_entries (r # rs)))"
            using i(4) unfolding step .
          ultimately show ?thesis using a b by blast
        qed
      qed
    qed
  qed
qed

lemma loop_log_fires:
  "i < length (loaded_entries rs) \<Longrightarrow>
   ucast (FLAGS_start f) < p + cumulative_time (take (Suc i) (loaded_entries rs)) \<Longrightarrow>
   \<forall>j<i. \<not> ucast (FLAGS_start f) < p + cumulative_time (take (Suc j) (loaded_entries rs)) \<Longrightarrow>
   \<forall>j\<le>i. \<not> (FLAGS_stop f > 0 \<and> ucast (FLAGS_stop f) \<le> p + cumulative_time (take (Suc j) (loaded_entries rs))) \<Longrightarrow>
   snd (VerifyShow_loop_log f rs p False fr n) = [(n + i, count_frames (take (Suc i) (loaded_entries rs)) fr)]"
proof (induction rs arbitrary: p fr n i)
  case Nil
  then show ?case by simp
next
  case (Cons r rs)
  from Cons.prems(1) obtain e where r: "r = Wellformed e"
    by (cases r) auto
  let ?p = "p + ucast (next_wait e)"
  let ?fr = "increment (universe e) fr"
  have zero: "p + cumulative_time (take (Suc 0) (loaded_entries (r # rs))) = ?p"
    using r by (simp add: cumulative_time_def)
  have step: "\<And>k. p + cumulative_time (take (Suc (Suc k)) (loaded_entries (r # rs)))
      = ?p + cumulative_time (take (Suc k) (loaded_entries rs))"
    using r by (simp add: cumulative_time_def add.assoc)
  from Cons.prems(4) have "\<not> (FLAGS_stop f > 0 \<and> ucast (FLAGS_stop f) \<le> p + cumulative_time (take (Suc 0) (loaded_entries (r # rs))))"
    by blast
  then have nostop: "\<not> (FLAGS_stop f > 0 \<and> ucast (FLAGS_stop f) \<le> ?p)"
    unfolding zero .
  show ?case
  proof (cases i)
    case 0
    with Cons.prems(2) have "ucast (FLAGS_start f) < ?p"
      using zero by simp
    with nostop r 0 show ?thesis
      using loop_log_playing [of f rs ?p "ClampVerifyFrameCount ?fr" "Suc n"]
      by (auto simp: Let_def)
  next
    case (Suc k)
    with Cons.prems(3) have "\<not> ucast (FLAGS_start f) < p + cumulative_time (take (Suc 0) (loaded_entries (r # rs)))"
      by blast
    then have nostart: "\<not> ucast (FLAGS_start f) < ?p"
      unfolding zero .
    have eq: "snd (VerifyShow_loop_log f (r # rs) p False fr n)
        = snd (VerifyShow_loop_log f rs ?p False ?fr (Suc n))"
      using r nostop nostart by (auto simp: Let_def)
    have 1: "k < length (loaded_entries rs)"
      using Cons.prems(1) Suc r by simp
    have 2: "ucast (FLAGS_start f) < ?p + cumulative_time (take (Suc k) (loaded_entries rs))"
      using Cons.prems(2) unfolding Suc step .
    have 3: "\<forall>j<k. \<not> ucast (FLAGS_start f) < ?p + cumulative_time (take (Suc j) (loaded_entries rs))"
    proof (intro allI impI)
      fix j assume "j < k"
      then have "Suc j < i" using Suc by simp
      with Cons.prems(3) have "\<not> ucast (FLAGS_start f) < p + cumulative_time (take (Suc (Suc j)) (loaded_entries (r # rs)))"
        by blast
      then show "\<not> ucast (FLAGS_start f) < ?p + cumulative_time (take (Suc j) (loaded_entries rs))"
        unfolding step .
    qed
    have 4: "\<forall>j\<le>k. \<not> (FLAGS_stop f > 0 \<and> ucast (FLAGS_stop f) \<le> ?p + cumulative_time (take (Suc j) (loaded_entries rs)))"
    proof (intro allI impI)
      fix j assume "j \<le> k"
      then have "Suc j \<le> i" using Suc by simp
      with Cons.prems(4) have "\<not> (FLAGS_stop f > 0 \<and> ucast (FLAGS_stop f) \<le> p + cumulative_time (take (Suc (Suc j)) (loaded_entries (r # rs))))"
        by blast
      then show "\<not> (FLAGS_stop f > 0 \<and> ucast (FLAGS_stop f) \<le> ?p + cumulative_time (take (Suc j) (loaded_entries rs)))"
        unfolding step .
    qed
    from Cons.IH [OF 1 2 3 4, of ?fr "Suc n"] eq Suc r show ?thesis
      by simp
  qed
qed

lemma loop_playing_final:
  "fst (snd (snd (VerifyShow_loop f rs p pl fr))) = (pl \<or> snd (VerifyShow_loop_log f rs p pl fr n) \<noteq> [])"
proof (induction rs arbitrary: p pl fr n)
  case Nil
  show ?case by simp
next
  case (Cons r rs)
  show ?case
  proof (cases r)
    case Malformed
    then show ?thesis by simp
  next
    case (Wellformed e)
    then show ?thesis
      using Cons.IH by (auto simp: loop_Wellformed Let_def)
  qed
qed

section \<open>Properties of the frame counters\<close>

text \<open>
  Incrementing and clamping keep the keys strictly increasing, and the counter of a
  universe changes as it does in the ordered map of the code.
\<close>

lemma keys_increment: "fst ` set (increment u m) = insert u (fst ` set m)"
  by (induction u m rule: increment.induct) auto

lemma sorted_increment:
  "sorted_wrt (<) (map fst m) \<Longrightarrow> sorted_wrt (<) (map fst (increment u m))"
proof (induction u m rule: increment.induct)
  case (1 u)
  show ?case by simp
next
  case (2 u k c m)
  then show ?case
    using keys_increment [of u m] by (auto simp: not_less)
qed

lemma map_of_increment:
  "sorted_wrt (<) (map fst m) \<Longrightarrow>
   map_of (increment u m) = (map_of m)(u \<mapsto> (case map_of m u of None \<Rightarrow> 1 | Some c \<Rightarrow> c + 1))"
proof (induction u m rule: increment.induct)
  case (1 u)
  show ?case by simp
next
  case (2 u k c m)
  show ?case
  proof (cases "u = k")
    case True
    then show ?thesis by auto
  next
    case ne: False
    show ?thesis
    proof (cases "u < k")
      case True
      with 2(2) have "u \<notin> fst ` set ((k, c) # m)"
        by auto
      then have "map_of ((k, c) # m) u = None"
        by (simp add: map_of_eq_None_iff)
      with True ne show ?thesis by auto
    next
      case False
      with ne 2 show ?thesis by (auto simp: fun_upd_twist)
    qed
  qed
qed

lemma frame_count_increment:
  "sorted_wrt (<) (map fst m) \<Longrightarrow>
   frame_count (increment u m) v = (if v = u then frame_count m u + 1 else frame_count m v)"
  by (simp add: frame_count_def map_of_increment split: option.splits)

lemma keys_Clamp: "map fst (ClampVerifyFrameCount m) = map fst m"
  by (induction m) (auto simp: ClampVerifyFrameCount_def)

lemma frame_count_Clamp:
  "frame_count (ClampVerifyFrameCount m) u = min (frame_count m u) 1"
proof -
  have clamped: "map_of (ClampVerifyFrameCount m) u
      = map_option (\<lambda>c. if c > 1 then 1 else c) (map_of m u)"
    by (simp add: ClampVerifyFrameCount_def map_of_map)
  show ?thesis
  proof (cases "map_of m u")
    case None
    with clamped show ?thesis
      by (simp add: frame_count_def)
  next
    case (Some c)
    have "(if c > 1 then 1 else c) = min c 1"
    proof (cases "c > 1")
      case True
      then have "1 \<le> c"
        by (rule less_imp_le)
      then have "min c 1 = 1"
        by (rule min_absorb2)
      with True show ?thesis
        by simp
    next
      case False
      then have "c \<le> 1"
        by (rule leI)
      then have "min c 1 = c"
        by (rule min_absorb1)
      with False show ?thesis
        by simp
    qed
    with clamped Some show ?thesis
      by (simp add: frame_count_def)
  qed
qed

lemma sorted_count_frames:
  "sorted_wrt (<) (map fst m) \<Longrightarrow> sorted_wrt (<) (map fst (count_frames es m))"
  by (induction es arbitrary: m) (simp_all add: sorted_increment)

lemma frame_count_count_frames:
  "sorted_wrt (<) (map fst m) \<Longrightarrow>
   frame_count (count_frames es m) u = frame_count m u + of_nat (length (filter (\<lambda>e. universe e = u) es))"
  by (induction es arbitrary: m) (auto simp: sorted_increment frame_count_increment)

section \<open>How a scan ends and what it counts\<close>

lemma loop_frames_no_clamp:
  "snd (VerifyShow_loop_log f rs p pl fr n) = [] \<Longrightarrow>
   snd (snd (snd (VerifyShow_loop f rs p pl fr))) = count_frames (counted_entries f p (loaded_entries rs)) fr"
proof (induction rs arbitrary: p pl fr n)
  case Nil
  show ?case by simp
next
  case (Cons r rs)
  show ?case
  proof (cases r)
    case Malformed
    then show ?thesis by simp
  next
    case (Wellformed e)
    then show ?thesis
      using Cons.prems Cons.IH by (auto simp: loop_Wellformed Let_def split: if_splits)
  qed
qed

lemma loop_frames_playing:
  "snd (snd (snd (VerifyShow_loop f rs p True fr))) =
     count_frames (counted_entries f p (loaded_entries rs)) fr"
  using loop_frames_no_clamp [of f rs p True fr 0] loop_log_playing [of f rs p fr 0] by simp

lemma loop_frames_clamped:
  "snd (VerifyShow_loop_log f rs p False fr n) = [(n + i, m)] \<Longrightarrow>
   snd (snd (snd (VerifyShow_loop f rs p False fr))) =
     count_frames (drop (Suc i) (counted_entries f p (loaded_entries rs)))
       (ClampVerifyFrameCount m)"
proof (induction rs arbitrary: p fr n i)
  case Nil
  then show ?case by simp
next
  case (Cons r rs)
  show ?case
  proof (cases r)
    case Malformed
    with Cons.prems show ?thesis by simp
  next
    case (Wellformed e)
    let ?p = "p + ucast (next_wait e)"
    let ?fr = "increment (universe e) fr"
    show ?thesis
    proof (cases "FLAGS_stop f > 0 \<and> ?p \<ge> ucast (FLAGS_stop f)")
      case True
      with Wellformed Cons.prems show ?thesis
        by (simp add: Let_def)
    next
      case nostop: False
      show ?thesis
      proof (cases "?p > ucast (FLAGS_start f)")
        case True
        have "snd (VerifyShow_loop_log f (r # rs) p False fr n) = [(n, ?fr)]"
          using Wellformed nostop True loop_log_playing [of f rs ?p "ClampVerifyFrameCount ?fr" "Suc n"]
          by (auto simp: Let_def)
        with Cons.prems have i: "i = 0" and m: "m = ?fr"
          by simp_all
        have loop: "VerifyShow_loop f (r # rs) p False fr
            = VerifyShow_loop f rs ?p True (ClampVerifyFrameCount ?fr)"
          using Wellformed nostop True by (auto simp: loop_Wellformed)
        have counted: "counted_entries f p (loaded_entries (r # rs))
            = e # counted_entries f ?p (loaded_entries rs)"
          using Wellformed nostop by auto
        show ?thesis
          unfolding loop counted i m
          using loop_frames_playing [of f rs ?p "ClampVerifyFrameCount ?fr"] by simp
      next
        case False
        have eq: "snd (VerifyShow_loop_log f (r # rs) p False fr n)
            = snd (VerifyShow_loop_log f rs ?p False ?fr (Suc n))"
          using Wellformed nostop False by (auto simp: Let_def)
        with Cons.prems have calls: "snd (VerifyShow_loop_log f rs ?p False ?fr (Suc n)) = [(n + i, m)]"
          by simp
        from loop_log_calls [of f rs ?p ?fr "Suc n"] calls
        obtain k where "n + i = Suc n + k"
          by auto
        then have i: "i = Suc k"
          by simp
        with calls have "snd (VerifyShow_loop_log f rs ?p False ?fr (Suc n)) = [(Suc n + k, m)]"
          by simp
        then have IH: "snd (snd (snd (VerifyShow_loop f rs ?p False ?fr))) =
            count_frames (drop (Suc k) (counted_entries f ?p (loaded_entries rs)))
              (ClampVerifyFrameCount m)"
          by (rule Cons.IH)
        have loop: "VerifyShow_loop f (r # rs) p False fr = VerifyShow_loop f rs ?p False ?fr"
          using Wellformed nostop False by (auto simp: loop_Wellformed)
        have counted: "counted_entries f p (loaded_entries (r # rs))
            = e # counted_entries f ?p (loaded_entries rs)"
          using Wellformed nostop by auto
        show ?thesis
          unfolding loop counted i using IH by simp
      qed
    qed
  qed
qed

lemma sorted_Clamp:
  "sorted_wrt (<) (map fst m) \<Longrightarrow> sorted_wrt (<) (map fst (ClampVerifyFrameCount m))"
  by (simp add: keys_Clamp)

lemma frame_count_clamped_pass:
  "frame_count (count_frames rest (ClampVerifyFrameCount (count_frames pre []))) u =
     min (of_nat (length (filter (\<lambda>e. universe e = u) pre))) 1
       + of_nat (length (filter (\<lambda>e. universe e = u) rest))"
proof -
  have sorted_pre: "sorted_wrt (<) (map fst (count_frames pre []))"
    by (rule sorted_count_frames) simp
  then have "sorted_wrt (<) (map fst (ClampVerifyFrameCount (count_frames pre [])))"
    by (rule sorted_Clamp)
  then have "frame_count (count_frames rest (ClampVerifyFrameCount (count_frames pre []))) u
      = frame_count (ClampVerifyFrameCount (count_frames pre [])) u
        + of_nat (length (filter (\<lambda>e. universe e = u) rest))"
    by (rule frame_count_count_frames)
  moreover have "frame_count (ClampVerifyFrameCount (count_frames pre [])) u
      = min (frame_count (count_frames pre []) u) 1"
    by (rule frame_count_Clamp)
  moreover have "frame_count (count_frames pre []) u
      = of_nat (length (filter (\<lambda>e. universe e = u) pre))"
    using frame_count_count_frames [of "[]" pre u] by (simp add: frame_count_def)
  ultimately show ?thesis
    by simp
qed

lemma loop_pos:
  "fst (snd (VerifyShow_loop f rs p pl fr)) =
     (if stop_clipped f p (loaded_entries rs) then ucast (FLAGS_stop f)
      else p + cumulative_time (loaded_entries rs))"
proof (induction rs arbitrary: p pl fr)
  case Nil
  show ?case by (simp add: cumulative_time_def)
next
  case (Cons r rs)
  show ?case
  proof (cases r)
    case Malformed
    then show ?thesis by (simp add: cumulative_time_def)
  next
    case (Wellformed e)
    then show ?thesis
      using Cons.IH by (auto simp: loop_Wellformed cumulative_time_Cons add.assoc)
  qed
qed

lemma loop_state:
  "fst (VerifyShow_loop f rs p pl fr) =
     (if stop_clipped f p (loaded_entries rs) then Entry (last (counted_entries f p (loaded_entries rs)))
      else if map Wellformed (loaded_entries rs) = rs then EndOfStream else FormatError)"
proof (induction rs arbitrary: p pl fr)
  case Nil
  show ?case by simp
next
  case (Cons r rs)
  show ?case
  proof (cases r)
    case Malformed
    then show ?thesis by simp
  next
    case (Wellformed e)
    have "counted_entries f q (loaded_entries rs) \<noteq> []" if "stop_clipped f q (loaded_entries rs)" for q
      using that by (cases "loaded_entries rs") auto
    with Wellformed show ?thesis
      using Cons.IH by (auto simp: loop_Wellformed)
  qed
qed

lemma loaded_entries_map [simp]: "loaded_entries (map Wellformed es) = es"
  by (induction es) simp_all


lemma ucast_less_u32_u64: "(ucast (a :: u32) :: u64) < ucast (b :: u32) \<longleftrightarrow> a < b"
proof -
  have "uint (ucast a :: u64) = uint a" "uint (ucast b :: u64) = uint b"
    by (simp_all add: uint_up_ucast is_up)
  then show ?thesis
    by (simp add: word_less_def)
qed

lemma unat_ucast_u32_u64: "unat (ucast (a :: u32) :: u64) = unat a"
proof -
  have "uint (ucast a :: u64) = uint a"
    by (simp add: uint_up_ucast is_up)
  then show ?thesis
    by (metis nat_uint_eq)
qed

lemma ucast_pos_u32_u64: "0 < (ucast (a :: u32) :: u64) \<longleftrightarrow> 0 < a"
  using ucast_less_u32_u64 [of 0 a] by simp

section \<open>The clamp before the start time\<close>

lemma loop_stop_at_crossing:
  "i < length (loaded_entries rs) \<Longrightarrow>
   FLAGS_start f < FLAGS_stop f \<Longrightarrow>
   ucast (FLAGS_start f) < p + cumulative_time (take (Suc i) (loaded_entries rs)) \<Longrightarrow>
   ucast (FLAGS_stop f) \<le> p + cumulative_time (take (Suc i) (loaded_entries rs)) \<Longrightarrow>
   \<forall>j<i. \<not> ucast (FLAGS_start f) < p + cumulative_time (take (Suc j) (loaded_entries rs)) \<Longrightarrow>
   VerifyShow_loop_log f rs p False fr n =
     ((Entry (loaded_entries rs ! i), ucast (FLAGS_stop f), False,
       count_frames (take (Suc i) (loaded_entries rs)) fr), [])"
proof (induction rs arbitrary: p fr n i)
  case Nil
  then show ?case by simp
next
  case (Cons r rs)
  from Cons.prems(1) obtain e where r: "r = Wellformed e"
    by (cases r) auto
  let ?p = "p + ucast (next_wait e)"
  let ?fr = "increment (universe e) fr"
  have zero: "p + cumulative_time (take (Suc 0) (loaded_entries (r # rs))) = ?p"
    using r by (simp add: cumulative_time_def)
  have step: "\<And>k. p + cumulative_time (take (Suc (Suc k)) (loaded_entries (r # rs)))
      = ?p + cumulative_time (take (Suc k) (loaded_entries rs))"
    using r by (simp add: cumulative_time_def add.assoc)
  have stop_pos: "0 < FLAGS_stop f"
    using Cons.prems(2) by (cases "FLAGS_stop f = 0") (simp_all add: word_gt_0)
  have window: "(ucast (FLAGS_start f) :: u64) < ucast (FLAGS_stop f)"
    using Cons.prems(2) by (simp add: ucast_less_u32_u64)
  show ?case
  proof (cases i)
    case 0
    with Cons.prems(4) have "ucast (FLAGS_stop f) \<le> ?p"
      using zero by simp
    with stop_pos r 0 show ?thesis
      by (simp add: Let_def)
  next
    case (Suc k)
    with Cons.prems(5) have "\<not> ucast (FLAGS_start f) < p + cumulative_time (take (Suc 0) (loaded_entries (r # rs)))"
      by blast
    then have nostart: "\<not> ucast (FLAGS_start f) < ?p"
      unfolding zero .
    with window have nostop: "\<not> ucast (FLAGS_stop f) \<le> ?p"
      by auto
    have eq: "VerifyShow_loop_log f (r # rs) p False fr n
        = VerifyShow_loop_log f rs ?p False ?fr (Suc n)"
      using r nostop nostart by (auto simp: Let_def)
    have 1: "k < length (loaded_entries rs)"
      using Cons.prems(1) Suc r by simp
    have 3: "ucast (FLAGS_start f) < ?p + cumulative_time (take (Suc k) (loaded_entries rs))"
      using Cons.prems(3) unfolding Suc step .
    have 4: "ucast (FLAGS_stop f) \<le> ?p + cumulative_time (take (Suc k) (loaded_entries rs))"
      using Cons.prems(4) unfolding Suc step .
    have 5: "\<forall>j<k. \<not> ucast (FLAGS_start f) < ?p + cumulative_time (take (Suc j) (loaded_entries rs))"
    proof (intro allI impI)
      fix j assume "j < k"
      then have "Suc j < i" using Suc by simp
      with Cons.prems(5) have "\<not> ucast (FLAGS_start f) < p + cumulative_time (take (Suc (Suc j)) (loaded_entries (r # rs)))"
        by blast
      then show "\<not> ucast (FLAGS_start f) < ?p + cumulative_time (take (Suc j) (loaded_entries rs))"
        unfolding step .
    qed
    from Cons.IH [OF 1 Cons.prems(2) 3 4 5, of ?fr "Suc n"] eq Suc r show ?thesis
      by simp
  qed
qed

lemma reported_count_VerifyShow:
  "reported_count (VerifyShow f (Some rs)) u =
     frame_count (snd (snd (snd (VerifyShow_loop f rs 0 False [])))) u"
  by (simp add: reported_count_def VerifyShow_def Load_def Let_def
      split: prod.splits LoaderState.splits)

text \<open>
  C2, the clamp law. \<^verbatim>\<open>ClampVerifyFrameCount\<close> replaces the counter \<open>c\<close> of every universe by
  \<open>min c 1\<close>. In a pass of the verifier (the logged loop is the loop itself) it is called
  at most once. It is called at entry \<open>i\<close>, on the counters of the entries up to and
  including entry \<open>i\<close>, exactly when entry \<open>i\<close> is the first entry whose cumulative
  time (the 64-bit clock) is strictly above the start time and the scan has not ended at
  the stop time at or before entry \<open>i\<close>. The flag \<^verbatim>\<open>playing\<close> ends as true exactly when
  the call has been made. So whenever the clamp fires, it fires on the first crossing of
  the start time and nowhere else.

  The pass goes on with the clamped counters. When the call is made at entry \<open>i\<close>, the
  counters at the end of the pass are the clamped counters with the entries counted after
  entry \<open>i\<close> added one by one, so that the count reported for a universe is \<open>min c 1\<close>,
  for the number \<open>c\<close> of its entries up to and including entry \<open>i\<close>, plus the number
  of its entries counted after entry \<open>i\<close>. When no call is made, the counters at the
  end are those of all entries counted.
\<close>

theorem clamp_law:
  "frame_count (ClampVerifyFrameCount m) u = min (frame_count m u) 1 \<and>
   fst (VerifyShow_loop_log f rs 0 False [] 0) = VerifyShow_loop f rs 0 False [] \<and>
   length (snd (VerifyShow_loop_log f rs 0 False [] 0)) \<le> 1 \<and>
   (\<forall>i m'. snd (VerifyShow_loop_log f rs 0 False [] 0) = [(i, m')] \<longleftrightarrow>
      first_crossing f (loaded_entries rs) i \<and>
      (\<forall>j\<in>{..i}. \<not> reaches_stop f (loaded_entries rs) j) \<and>
      m' = count_frames (take (Suc i) (loaded_entries rs)) []) \<and>
   fst (snd (snd (VerifyShow_loop f rs 0 False []))) = (snd (VerifyShow_loop_log f rs 0 False [] 0) \<noteq> []) \<and>
   (snd (VerifyShow_loop_log f rs 0 False [] 0) = [] \<longrightarrow>
      snd (snd (snd (VerifyShow_loop f rs 0 False []))) =
        count_frames (counted_entries f 0 (loaded_entries rs)) []) \<and>
   (\<forall>i m'. snd (VerifyShow_loop_log f rs 0 False [] 0) = [(i, m')] \<longrightarrow>
      snd (snd (snd (VerifyShow_loop f rs 0 False []))) =
        count_frames (drop (Suc i) (counted_entries f 0 (loaded_entries rs)))
          (ClampVerifyFrameCount m') \<and>
      (\<forall>v. reported_count (VerifyShow f (Some rs)) v =
         min (of_nat (length (filter (\<lambda>e. universe e = v) (take (Suc i) (loaded_entries rs))))) 1
           + of_nat (length (filter (\<lambda>e. universe e = v)
               (drop (Suc i) (counted_entries f 0 (loaded_entries rs)))))))"
proof -
  let ?es = "loaded_entries rs"
  let ?calls = "snd (VerifyShow_loop_log f rs 0 False [] 0)"
  let ?frames = "snd (snd (snd (VerifyShow_loop f rs 0 False [])))"
  have fires: "?calls = [(i, count_frames (take (Suc i) ?es) [])]"
    if "first_crossing f ?es i" "\<forall>j\<in>{..i}. \<not> reaches_stop f ?es j" for i
    using loop_log_fires [of i rs f 0 "[]" 0] that
    by (simp add: first_crossing_def crosses_start_def reaches_stop_def)
  have calls: "?calls = [] \<or> (\<exists>i. ?calls = [(i, count_frames (take (Suc i) ?es) [])] \<and>
      first_crossing f ?es i \<and> (\<forall>j\<in>{..i}. \<not> reaches_stop f ?es j))"
    using loop_log_calls [of f rs 0 "[]" 0]
    by (auto simp: first_crossing_def crosses_start_def reaches_stop_def)
  have len: "length ?calls \<le> 1"
    using calls by auto
  have iff: "?calls = [(i, m')] \<longleftrightarrow>
      first_crossing f ?es i \<and> (\<forall>j\<in>{..i}. \<not> reaches_stop f ?es j) \<and>
      m' = count_frames (take (Suc i) ?es) []" for i m'
  proof
    assume "?calls = [(i, m')]"
    with calls show "first_crossing f ?es i \<and> (\<forall>j\<in>{..i}. \<not> reaches_stop f ?es j) \<and>
      m' = count_frames (take (Suc i) ?es) []"
      by auto
  next
    assume "first_crossing f ?es i \<and> (\<forall>j\<in>{..i}. \<not> reaches_stop f ?es j) \<and>
      m' = count_frames (take (Suc i) ?es) []"
    with fires [of i] show "?calls = [(i, m')]"
      by simp
  qed
  have playing: "fst (snd (snd (VerifyShow_loop f rs 0 False []))) = (?calls \<noteq> [])"
    using loop_playing_final [of f rs 0 False "[]" 0] by simp
  have unclamped: "?calls = [] \<longrightarrow> ?frames = count_frames (counted_entries f 0 ?es) []"
    using loop_frames_no_clamp [of f rs 0 False "[]" 0] by blast
  have clamped: "?calls = [(i, m')] \<longrightarrow>
      ?frames = count_frames (drop (Suc i) (counted_entries f 0 ?es)) (ClampVerifyFrameCount m') \<and>
      (\<forall>v. reported_count (VerifyShow f (Some rs)) v =
         min (of_nat (length (filter (\<lambda>e. universe e = v) (take (Suc i) ?es)))) 1
           + of_nat (length (filter (\<lambda>e. universe e = v)
               (drop (Suc i) (counted_entries f 0 ?es)))))" for i m'
  proof
    assume c: "?calls = [(i, m')]"
    then have "snd (VerifyShow_loop_log f rs 0 False [] 0) = [(0 + i, m')]"
      by simp
    then have fr: "?frames =
        count_frames (drop (Suc i) (counted_entries f 0 ?es)) (ClampVerifyFrameCount m')"
      by (rule loop_frames_clamped)
    from c iff [of i m'] have m': "m' = count_frames (take (Suc i) ?es) []"
      by simp
    have "reported_count (VerifyShow f (Some rs)) v =
         min (of_nat (length (filter (\<lambda>e. universe e = v) (take (Suc i) ?es)))) 1
           + of_nat (length (filter (\<lambda>e. universe e = v)
               (drop (Suc i) (counted_entries f 0 ?es))))" for v
      unfolding reported_count_VerifyShow fr m' by (rule frame_count_clamped_pass)
    with fr show "?frames =
        count_frames (drop (Suc i) (counted_entries f 0 ?es)) (ClampVerifyFrameCount m') \<and>
      (\<forall>v. reported_count (VerifyShow f (Some rs)) v =
         min (of_nat (length (filter (\<lambda>e. universe e = v) (take (Suc i) ?es)))) 1
           + of_nat (length (filter (\<lambda>e. universe e = v)
               (drop (Suc i) (counted_entries f 0 ?es)))))"
      by blast
  qed
  show ?thesis
  proof (intro conjI allI)
    show "frame_count (ClampVerifyFrameCount m) u = min (frame_count m u) 1"
      by (rule frame_count_Clamp)
    show "fst (VerifyShow_loop_log f rs 0 False [] 0) = VerifyShow_loop f rs 0 False []"
      by (rule loop_log_erase)
    show "length ?calls \<le> 1"
      by (rule len)
    show "?calls = [(i, m')] \<longleftrightarrow>
      first_crossing f ?es i \<and> (\<forall>j\<in>{..i}. \<not> reaches_stop f ?es j) \<and>
      m' = count_frames (take (Suc i) ?es) []" for i m'
      by (rule iff)
    show "fst (snd (snd (VerifyShow_loop f rs 0 False []))) = (?calls \<noteq> [])"
      by (rule playing)
    show "?calls = [] \<longrightarrow> ?frames = count_frames (counted_entries f 0 ?es) []"
      by (rule unclamped)
    show "?calls = [(i, m')] \<longrightarrow>
      ?frames = count_frames (drop (Suc i) (counted_entries f 0 ?es)) (ClampVerifyFrameCount m') \<and>
      (\<forall>v. reported_count (VerifyShow f (Some rs)) v =
         min (of_nat (length (filter (\<lambda>e. universe e = v) (take (Suc i) ?es)))) 1
           + of_nat (length (filter (\<lambda>e. universe e = v)
               (drop (Suc i) (counted_entries f 0 ?es)))))" for i m'
      by (rule clamped)
  qed
qed

theorem clamp_law_witness:
  "frame_count (ClampVerifyFrameCount [(1, 2)]) 1 = min (frame_count [(1, 2)] 1) 1 \<and>
   snd (VerifyShow_loop_log (verify_flags 150 0) scenario_show 0 False [] 0) = [(Suc 0, [(1, 2)])] \<and>
   first_crossing (verify_flags 150 0) (loaded_entries scenario_show) (Suc 0) \<and>
   \<not> reaches_stop (verify_flags 150 0) (loaded_entries scenario_show) 0 \<and>
   \<not> reaches_stop (verify_flags 150 0) (loaded_entries scenario_show) (Suc 0) \<and>
   fst (snd (snd (VerifyShow_loop (verify_flags 150 0) scenario_show 0 False []))) \<and>
   snd (snd (snd (VerifyShow_loop (verify_flags 150 0) scenario_show 0 False [])))
     = [(1, 1), (2, 1)] \<and>
   reported_count (VerifyShow (verify_flags 150 0) (Some scenario_show)) 1 = 1 \<and>
   reported_count (VerifyShow (verify_flags 150 0) (Some scenario_show)) 2 = 1"
proof -
  let ?f = "verify_flags 150 0"
  note law = clamp_law [of "[(1, 2)]" 1 ?f scenario_show]
  have calls: "snd (VerifyShow_loop_log ?f scenario_show 0 False [] 0) = [(Suc 0, [(1, 2)])]"
    by (simp add: verify_flags_def scenario_show_def show_entry_def Let_def
        ClampVerifyFrameCount_def)
  from law have "(snd (VerifyShow_loop_log ?f scenario_show 0 False [] 0)
        = [(Suc 0, [(1, 2)])]) =
      (first_crossing ?f (loaded_entries scenario_show) (Suc 0) \<and>
       (\<forall>j\<in>{..Suc 0}. \<not> reaches_stop ?f (loaded_entries scenario_show) j) \<and>
       [(1, 2)] = count_frames (take (Suc (Suc 0)) (loaded_entries scenario_show)) [])"
    by blast
  with calls have fc: "first_crossing ?f (loaded_entries scenario_show) (Suc 0)"
    and ns: "\<forall>j\<in>{..Suc 0}. \<not> reaches_stop ?f (loaded_entries scenario_show) j"
    by simp_all
  from ns have ns0: "\<not> reaches_stop ?f (loaded_entries scenario_show) 0"
    and ns1: "\<not> reaches_stop ?f (loaded_entries scenario_show) (Suc 0)"
    by simp_all
  from law calls have pl: "fst (snd (snd (VerifyShow_loop ?f scenario_show 0 False [])))"
    by simp
  from law have cl: "frame_count (ClampVerifyFrameCount [(1, 2)]) 1 = min (frame_count [(1, 2)] 1) 1"
    by (rule conjunct1)
  from law have after: "snd (VerifyShow_loop_log ?f scenario_show 0 False [] 0) = [(Suc 0, [(1, 2)])] \<longrightarrow>
      snd (snd (snd (VerifyShow_loop ?f scenario_show 0 False []))) =
        count_frames (drop (Suc (Suc 0)) (counted_entries ?f 0 (loaded_entries scenario_show)))
          (ClampVerifyFrameCount [(1, 2)]) \<and>
      (\<forall>v. reported_count (VerifyShow ?f (Some scenario_show)) v =
         min (of_nat (length (filter (\<lambda>e. universe e = v)
                (take (Suc (Suc 0)) (loaded_entries scenario_show))))) 1
           + of_nat (length (filter (\<lambda>e. universe e = v)
               (drop (Suc (Suc 0)) (counted_entries ?f 0 (loaded_entries scenario_show))))))"
    by blast
  from after calls have fr: "snd (snd (snd (VerifyShow_loop ?f scenario_show 0 False []))) =
        count_frames (drop (Suc (Suc 0)) (counted_entries ?f 0 (loaded_entries scenario_show)))
          (ClampVerifyFrameCount [(1, 2)])"
    and rc: "\<And>v. reported_count (VerifyShow ?f (Some scenario_show)) v =
         min (of_nat (length (filter (\<lambda>e. universe e = v)
                (take (Suc (Suc 0)) (loaded_entries scenario_show))))) 1
           + of_nat (length (filter (\<lambda>e. universe e = v)
               (drop (Suc (Suc 0)) (counted_entries ?f 0 (loaded_entries scenario_show)))))"
    by blast+
  have fr': "snd (snd (snd (VerifyShow_loop ?f scenario_show 0 False []))) = [(1, 1), (2, 1)]"
    unfolding fr
    by (simp add: ClampVerifyFrameCount_def show_entry_def scenario_show_def verify_flags_def)
  have rc1: "reported_count (VerifyShow ?f (Some scenario_show)) 1 = 1"
    unfolding rc [of 1] by (simp add: show_entry_def scenario_show_def verify_flags_def)
  have rc2: "reported_count (VerifyShow ?f (Some scenario_show)) 2 = 1"
    unfolding rc [of 2] by (simp add: show_entry_def scenario_show_def verify_flags_def)
  from cl calls fc ns0 ns1 pl fr' rc1 rc2 show ?thesis
    by (intro conjI)
qed


text \<open>
  C10. When the start time is below the stop time and the first entry \<open>i\<close> that takes the
  clock beyond the start time also takes it to the stop time, the loop leaves at entry
  \<open>i\<close> before the start test: \<^verbatim>\<open>ClampVerifyFrameCount\<close> is never called,
  \<^verbatim>\<open>playing\<close> stays false, and the count reported for every universe is the number of
  its entries among the first \<open>i + 1\<close> entries (in the 32-bit counter, so modulo
  \<open>2 ^ 32\<close>), none of them coalesced. The claim's \<open>0 < start\<close> is not needed.
\<close>

theorem stop_before_start_crossing:
  "FLAGS_start f < FLAGS_stop f \<Longrightarrow>
   first_crossing f (loaded_entries rs) i \<Longrightarrow>
   reaches_stop f (loaded_entries rs) i \<Longrightarrow>
   snd (VerifyShow_loop_log f rs 0 False [] 0) = [] \<and>
   VerifyShow_loop f rs 0 False [] =
     (Entry (loaded_entries rs ! i), ucast (FLAGS_stop f), False,
      count_frames (take (Suc i) (loaded_entries rs)) []) \<and>
   (\<forall>u. reported_count (VerifyShow f (Some rs)) u =
      of_nat (length (filter (\<lambda>e. universe e = u) (take (Suc i) (loaded_entries rs)))))"
proof -
  assume w: "FLAGS_start f < FLAGS_stop f"
    and c: "first_crossing f (loaded_entries rs) i"
    and s: "reaches_stop f (loaded_entries rs) i"
  have log: "VerifyShow_loop_log f rs 0 False [] 0 =
     ((Entry (loaded_entries rs ! i), ucast (FLAGS_stop f), False,
       count_frames (take (Suc i) (loaded_entries rs)) []), [])"
    using loop_stop_at_crossing [of i rs f 0 "[]" 0] w c s
    by (simp add: first_crossing_def crosses_start_def reaches_stop_def)
  then have loop: "VerifyShow_loop f rs 0 False [] =
     (Entry (loaded_entries rs ! i), ucast (FLAGS_stop f), False,
      count_frames (take (Suc i) (loaded_entries rs)) [])"
    using loop_log_erase [of f rs 0 False "[]" 0] by simp
  have "reported_count (VerifyShow f (Some rs)) u =
      of_nat (length (filter (\<lambda>e. universe e = u) (take (Suc i) (loaded_entries rs))))" for u
    using frame_count_count_frames [of "[]" "take (Suc i) (loaded_entries rs)" u]
    by (simp add: reported_count_VerifyShow loop frame_count_def)
  with log loop show ?thesis
    by simp
qed

theorem stop_before_start_crossing_witness:
  "snd (VerifyShow_loop_log (verify_flags 150 250) scenario_show 0 False [] 0) = [] \<and>
   VerifyShow_loop (verify_flags 150 250) scenario_show 0 False [] =
     (Entry (show_entry 1 200), 250, False, [(1, 2)]) \<and>
   reported_count (VerifyShow (verify_flags 150 250) (Some scenario_show)) 1 = 2"
proof -
  have w: "FLAGS_start (verify_flags 150 250) < FLAGS_stop (verify_flags 150 250)"
    by (simp add: verify_flags_def)
  have c: "first_crossing (verify_flags 150 250) (loaded_entries scenario_show) (Suc 0)"
    by (simp add: first_crossing_def crosses_start_def cumulative_time_def verify_flags_def
        scenario_show_def show_entry_def)
  have s: "reaches_stop (verify_flags 150 250) (loaded_entries scenario_show) (Suc 0)"
    by (simp add: reaches_stop_def cumulative_time_def verify_flags_def
        scenario_show_def show_entry_def)
  note law = stop_before_start_crossing [OF w c s]
  from law have "snd (VerifyShow_loop_log (verify_flags 150 250) scenario_show 0 False [] 0) = []"
    by (rule conjunct1)
  moreover from law have "VerifyShow_loop (verify_flags 150 250) scenario_show 0 False [] =
     (Entry (show_entry 1 200), 250, False, [(1, 2)])"
    by (simp add: verify_flags_def scenario_show_def show_entry_def)
  moreover from law have "reported_count (VerifyShow (verify_flags 150 250) (Some scenario_show)) 1
      = of_nat (length (filter (\<lambda>e. universe e = 1)
          (take (Suc (Suc 0)) (loaded_entries scenario_show))))"
    by blast
  then have "reported_count (VerifyShow (verify_flags 150 250) (Some scenario_show)) 1 = 2"
    by (simp add: scenario_show_def show_entry_def)
  ultimately show ?thesis
    by (intro conjI)
qed

section \<open>A window that starts at 0\<close>

lemma Clamp_id: "\<forall>c\<in>snd ` set m. c \<le> 1 \<Longrightarrow> ClampVerifyFrameCount m = m"
proof (induction m)
  case Nil
  show ?case by (simp add: ClampVerifyFrameCount_def)
next
  case (Cons kc m)
  obtain k c where kc: "kc = (k, c)" by (cases kc)
  from Cons.prems kc have "c \<le> 1" by simp
  then have "\<not> 1 < c" by (rule leD)
  moreover from Cons have "ClampVerifyFrameCount m = m" by simp
  ultimately show ?case using kc by (simp add: ClampVerifyFrameCount_def)
qed

lemma increment_new: "u \<notin> fst ` set m \<Longrightarrow> set (increment u m) = insert (u, 1) (set m)"
  by (induction u m rule: increment.induct) auto

lemma ucast_zero_u32_u64: "(ucast (a :: u32) :: u64) = 0 \<longleftrightarrow> a = 0"
  using ucast_pos_u32_u64 [of a] by (simp add: word_gt_0)

lemma loop_frames_start0:
  "FLAGS_start f = 0 \<Longrightarrow>
   distinct (map universe (upto_first_nonzero (loaded_entries rs))) \<Longrightarrow>
   universe ` set (upto_first_nonzero (loaded_entries rs)) \<inter> fst ` set fr = {} \<Longrightarrow>
   \<forall>c\<in>snd ` set fr. c \<le> 1 \<Longrightarrow>
   snd (snd (snd (VerifyShow_loop f rs 0 False fr))) =
     count_frames (counted_entries f 0 (loaded_entries rs)) fr"
proof (induction rs arbitrary: fr)
  case Nil
  show ?case by simp
next
  case (Cons r rs)
  show ?case
  proof (cases r)
    case Malformed
    then show ?thesis by simp
  next
    case (Wellformed e)
    let ?fr = "increment (universe e) fr"
    let ?p = "(ucast (next_wait e) :: u64)"
    from Cons.prems(3) Wellformed have new: "universe e \<notin> fst ` set fr"
      by (cases "next_wait e = 0") auto
    then have set_fr: "set ?fr = insert (universe e, 1) (set fr)"
      by (rule increment_new)
    with Cons.prems(4) have small: "\<forall>c\<in>snd ` set ?fr. c \<le> 1"
      by auto
    show ?thesis
    proof (cases "FLAGS_stop f > 0 \<and> ucast (FLAGS_stop f) \<le> ?p")
      case True
      with Wellformed show ?thesis
        by (simp add: loop_Wellformed)
    next
      case nostop: False
      show ?thesis
      proof (cases "next_wait e = 0")
        case True
        with Cons.prems(2) Wellformed
        have d: "distinct (map universe (upto_first_nonzero (loaded_entries rs)))"
          and notin: "universe e \<notin> universe ` set (upto_first_nonzero (loaded_entries rs))"
          by simp_all
        from Cons.prems(3) Wellformed True
        have "universe ` set (upto_first_nonzero (loaded_entries rs)) \<inter> fst ` set fr = {}"
          by auto
        with notin have disj: "universe ` set (upto_first_nonzero (loaded_entries rs)) \<inter> fst ` set ?fr = {}"
          using set_fr by auto
        have loop: "VerifyShow_loop f (r # rs) 0 False fr = VerifyShow_loop f rs 0 False ?fr"
          using Wellformed True nostop Cons.prems(1) by (auto simp: loop_Wellformed)
        have counted: "counted_entries f 0 (loaded_entries (r # rs))
            = e # counted_entries f 0 (loaded_entries rs)"
          using Wellformed True nostop by auto
        from Cons.IH [OF Cons.prems(1) d disj small] loop counted show ?thesis
          by simp
      next
        case False
        then have "?p \<noteq> 0"
          by (simp add: ucast_zero_u32_u64)
        then have "0 < ?p"
          by (simp add: word_gt_0)
        then have loop: "VerifyShow_loop f (r # rs) 0 False fr
            = VerifyShow_loop f rs ?p True (ClampVerifyFrameCount ?fr)"
          using Wellformed nostop Cons.prems(1) by (auto simp: loop_Wellformed)
        have counted: "counted_entries f 0 (loaded_entries (r # rs))
            = e # counted_entries f ?p (loaded_entries rs)"
          using Wellformed nostop by auto
        from small have "ClampVerifyFrameCount ?fr = ?fr"
          by (rule Clamp_id)
        with loop counted show ?thesis
          using loop_frames_playing [of f rs ?p ?fr] by simp
      qed
    qed
  qed
qed

text \<open>
  C9, as the code has it. With start 0 the clamp is not switched off: it is called at the
  first entry that takes the clock above 0. What holds is this: when no universe occurs
  twice among the entries up to and including the first one with a nonzero wait (so in
  particular when the first entry's wait is not zero), the call changes nothing, and the
  count reported for every universe is the number of its entries among the entries
  counted (in the 32-bit counter, so modulo \<open>2 ^ 32\<close>).
\<close>

theorem start_zero_counts:
  "FLAGS_start f = 0 \<Longrightarrow>
   distinct (map universe (upto_first_nonzero (loaded_entries rs))) \<Longrightarrow>
   reported_count (VerifyShow f (Some rs)) u =
     of_nat (length (filter (\<lambda>e. universe e = u) (counted_entries f 0 (loaded_entries rs))))"
proof -
  assume z: "FLAGS_start f = 0"
    and d: "distinct (map universe (upto_first_nonzero (loaded_entries rs)))"
  have "snd (snd (snd (VerifyShow_loop f rs 0 False []))) =
     count_frames (counted_entries f 0 (loaded_entries rs)) []"
    using loop_frames_start0 [OF z d, of "[]"] by simp
  then show ?thesis
    using frame_count_count_frames [of "[]" "counted_entries f 0 (loaded_entries rs)" u]
    by (simp add: reported_count_VerifyShow frame_count_def)
qed

theorem start_zero_counts_witness:
  "reported_count (VerifyShow (verify_flags 0 0) (Some scenario_show)) 1 = 2 \<and>
   reported_count (VerifyShow (verify_flags 0 0) (Some scenario_show)) 2 = 1"
proof -
  have z: "FLAGS_start (verify_flags 0 0) = 0"
    by (simp add: verify_flags_def)
  have d: "distinct (map universe (upto_first_nonzero (loaded_entries scenario_show)))"
    by (simp add: scenario_show_def show_entry_def)
  have c: "counted_entries (verify_flags 0 0) 0 (loaded_entries scenario_show)
      = [show_entry 1 100, show_entry 1 200, show_entry 2 50]"
    by (simp add: scenario_show_def verify_flags_def)
  show ?thesis
    using start_zero_counts [OF z d, of 1] start_zero_counts [OF z d, of 2]
    by (simp add: c show_entry_def)
qed

text \<open>
  The claim C9 as stated fails: in a show that begins with two entries of universe 1 in
  the same millisecond, followed by a third 100 ms later, the window with start 0 has the
  clamp called at the third entry on the counter 3, and the verifier reports one frame
  for universe 1 although it has counted three entries.
\<close>

theorem start_zero_counterexample:
  "FLAGS_start (verify_flags 0 0) = 0 \<and>
   counted_entries (verify_flags 0 0) 0 (loaded_entries zero_wait_show)
     = [show_entry 1 0, show_entry 1 0, show_entry 1 100] \<and>
   snd (VerifyShow_loop_log (verify_flags 0 0) zero_wait_show 0 False [] 0)
     = [(Suc (Suc 0), [(1, 3)])] \<and>
   reported_count (VerifyShow (verify_flags 0 0) (Some zero_wait_show)) 1 = 1 \<and>
   reported_count (VerifyShow (verify_flags 0 0) (Some zero_wait_show)) 1
     \<noteq> of_nat (length (filter (\<lambda>e. universe e = 1)
          (counted_entries (verify_flags 0 0) 0 (loaded_entries zero_wait_show))))"
proof -
  have a: "FLAGS_start (verify_flags 0 0) = 0"
    by (simp add: verify_flags_def)
  have b: "counted_entries (verify_flags 0 0) 0 (loaded_entries zero_wait_show)
     = [show_entry 1 0, show_entry 1 0, show_entry 1 100]"
    by (simp add: zero_wait_show_def verify_flags_def)
  have c: "snd (VerifyShow_loop_log (verify_flags 0 0) zero_wait_show 0 False [] 0)
     = [(Suc (Suc 0), [(1, 3)])]"
    by (simp add: zero_wait_show_def verify_flags_def show_entry_def Let_def
        ClampVerifyFrameCount_def)
  have d: "reported_count (VerifyShow (verify_flags 0 0) (Some zero_wait_show)) 1 = 1"
    by (simp add: reported_count_VerifyShow zero_wait_show_def verify_flags_def show_entry_def
        loop_Wellformed ClampVerifyFrameCount_def frame_count_def)
  have e: "(1 :: u32) \<noteq> of_nat (length (filter (\<lambda>e. universe e = 1)
          [show_entry 1 0, show_entry 1 0, show_entry 1 100]))"
    by (simp add: show_entry_def)
  from a b c d e show ?thesis
    by simp
qed

section \<open>The playback time without a stop time\<close>

lemma stop_clipped_unbounded: "FLAGS_stop f = 0 \<Longrightarrow> \<not> stop_clipped f p es"
  by (induction es arbitrary: p) simp_all

lemma VerifyShow_Some:
  "VerifyShow f (Some rs) =
     (case fst (VerifyShow_loop f rs 0 False []) of
        Entry entry \<Rightarrow> EXIT_OK | EndOfStream \<Rightarrow> EXIT_OK | FormatError \<Rightarrow> EXIT_DATAERR,
      Some \<lparr> warn_start = (ucast (FLAGS_start f) > fst (snd (VerifyShow_loop f rs 0 False []))),
             warn_stop = (ucast (FLAGS_stop f) > fst (snd (VerifyShow_loop f rs 0 False []))),
             frames_by_universe = snd (snd (snd (VerifyShow_loop f rs 0 False []))),
             total = sum_list (map snd (snd (snd (snd (VerifyShow_loop f rs 0 False []))))),
             total_time = (if fst (snd (VerifyShow_loop f rs 0 False [])) \<ge> ucast (FLAGS_start f)
                           then fst (snd (VerifyShow_loop f rs 0 False [])) - ucast (FLAGS_start f)
                           else 0) \<rparr>)"
  by (cases "VerifyShow_loop f rs 0 False []")
     (simp add: VerifyShow_def Load_def Let_def split: LoaderState.splits)

lemma unat_cumulative_time:
  "unat (cumulative_time es) = sum_list (map (\<lambda>e. unat (next_wait e)) es) mod 2 ^ 64"
proof (induction es)
  case Nil
  show ?case by (simp add: cumulative_time_def)
next
  case (Cons e es)
  have "unat (cumulative_time (e # es))
      = (unat (ucast (next_wait e) :: u64) + unat (cumulative_time es)) mod 2 ^ 64"
    by (simp add: cumulative_time_Cons unat_word_ariths)
  also have "\<dots> = (unat (next_wait e) + sum_list (map (\<lambda>e. unat (next_wait e)) es) mod 2 ^ 64) mod 2 ^ 64"
    by (simp only: unat_ucast_u32_u64 Cons.IH)
  also have "\<dots> = (unat (next_wait e) + sum_list (map (\<lambda>e. unat (next_wait e)) es)) mod 2 ^ 64"
    by (rule mod_add_right_eq)
  finally show ?case by simp
qed

lemma loop_unbounded_state:
  "FLAGS_stop f = 0 \<Longrightarrow> fst (VerifyShow_loop f (map Wellformed es) p pl fr) = EndOfStream"
  using loop_state [of f "map Wellformed es" p pl fr] stop_clipped_unbounded [of f p es]
  by simp

lemma loop_unbounded_pos:
  "FLAGS_stop f = 0 \<Longrightarrow>
   fst (snd (VerifyShow_loop f (map Wellformed es) p pl fr)) = p + cumulative_time es"
  using loop_pos [of f "map Wellformed es" p pl fr] stop_clipped_unbounded [of f p es]
  by simp

lemma reported_time_unbounded:
  "FLAGS_stop f = 0 \<Longrightarrow>
   reported_time (VerifyShow f (Some (map Wellformed es))) =
     Some (if ucast (FLAGS_start f) \<le> cumulative_time es
           then cumulative_time es - ucast (FLAGS_start f) else 0)"
  by (simp add: reported_time_def VerifyShow_Some loop_unbounded_pos)

text \<open>
  C4, as the code has it. For a show without malformed record and a window without stop
  time, the verifier exits with \<^verbatim>\<open>EXIT_OK\<close> and the playback time is the cumulative time
  of all entries minus the start time, or 0 when that would be negative, where the
  cumulative time is the 64-bit clock: the sum of the waits modulo \<open>2 ^ 64\<close>. When the
  sum of the waits is below \<open>2 ^ 64\<close>, the playback time is that sum minus the start
  time, cut off at 0 (the subtraction of natural numbers).
\<close>

theorem total_time_unbounded:
  "FLAGS_stop f = 0 \<Longrightarrow>
   fst (VerifyShow f (Some (map Wellformed es))) = EXIT_OK \<and>
   reported_time (VerifyShow f (Some (map Wellformed es))) =
     Some (if ucast (FLAGS_start f) \<le> cumulative_time es
           then cumulative_time es - ucast (FLAGS_start f) else 0) \<and>
   unat (cumulative_time es) = sum_list (map (\<lambda>e. unat (next_wait e)) es) mod 2 ^ 64 \<and>
   (sum_list (map (\<lambda>e. unat (next_wait e)) es) < 2 ^ 64 \<longrightarrow>
    map_option unat (reported_time (VerifyShow f (Some (map Wellformed es)))) =
      Some (sum_list (map (\<lambda>e. unat (next_wait e)) es) - unat (FLAGS_start f)))"
proof -
  assume z: "FLAGS_stop f = 0"
  let ?S = "sum_list (map (\<lambda>e. unat (next_wait e)) es)"
  have ok: "fst (VerifyShow f (Some (map Wellformed es))) = EXIT_OK"
    by (simp add: VerifyShow_Some loop_unbounded_state [OF z])
  have nat_level: "map_option unat (reported_time (VerifyShow f (Some (map Wellformed es))))
      = Some (?S - unat (FLAGS_start f))" if small: "?S < 2 ^ 64"
  proof -
    from small have cum: "unat (cumulative_time es) = ?S"
      by (simp add: unat_cumulative_time)
    have le: "ucast (FLAGS_start f) \<le> cumulative_time es \<longleftrightarrow> unat (FLAGS_start f) \<le> ?S"
      by (simp add: word_le_nat_alt unat_ucast_u32_u64 cum)
    show ?thesis
    proof (cases "ucast (FLAGS_start f) \<le> cumulative_time es")
      case True
      then have "unat (cumulative_time es - ucast (FLAGS_start f))
          = unat (cumulative_time es) - unat (ucast (FLAGS_start f) :: u64)"
        by (rule unat_sub)
      with True show ?thesis
        by (simp add: reported_time_unbounded [OF z] cum unat_ucast_u32_u64)
    next
      case False
      with le have "?S - unat (FLAGS_start f) = 0"
        by simp
      with False show ?thesis
        by (simp add: reported_time_unbounded [OF z])
    qed
  qed
  from ok reported_time_unbounded [OF z, of es] unat_cumulative_time [of es] nat_level
  show ?thesis
    by (intro conjI impI)
qed

theorem total_time_unbounded_witness:
  "fst (VerifyShow (verify_flags 400 0) (Some scenario_show)) = EXIT_OK \<and>
   reported_time (VerifyShow (verify_flags 400 0) (Some scenario_show)) = Some 0 \<and>
   fst (VerifyShow (verify_flags 150 0) (Some scenario_show)) = EXIT_OK \<and>
   map_option unat (reported_time (VerifyShow (verify_flags 150 0) (Some scenario_show))) = Some 200"
proof -
  let ?es = "[show_entry 1 100, show_entry 1 200, show_entry 2 50]"
  have show_eq: "scenario_show = map Wellformed ?es"
    by (simp add: scenario_show_def)
  have z1: "FLAGS_stop (verify_flags 400 0) = 0" and z2: "FLAGS_stop (verify_flags 150 0) = 0"
    by (simp_all add: verify_flags_def)
  have small: "sum_list (map (\<lambda>e. unat (next_wait e)) ?es) < 2 ^ 64"
    by (simp add: show_entry_def)
  have clamped: "(if ucast (FLAGS_start (verify_flags 400 0)) \<le> cumulative_time ?es
      then cumulative_time ?es - ucast (FLAGS_start (verify_flags 400 0)) else 0) = 0"
    by (simp add: cumulative_time_def show_entry_def verify_flags_def)
  have diff: "sum_list (map (\<lambda>e. unat (next_wait e)) ?es) - unat (FLAGS_start (verify_flags 150 0))
      = 200"
    by (simp add: show_entry_def verify_flags_def)
  note late = total_time_unbounded [OF z1, of ?es]
  note mid = total_time_unbounded [OF z2, of ?es]
  have a: "fst (VerifyShow (verify_flags 400 0) (Some scenario_show)) = EXIT_OK"
    unfolding show_eq using late by (rule conjunct1)
  have b: "reported_time (VerifyShow (verify_flags 400 0) (Some scenario_show)) = Some 0"
    unfolding show_eq using late [THEN conjunct2, THEN conjunct1] unfolding clamped .
  have c: "fst (VerifyShow (verify_flags 150 0) (Some scenario_show)) = EXIT_OK"
    unfolding show_eq using mid by (rule conjunct1)
  have d: "map_option unat (reported_time (VerifyShow (verify_flags 150 0) (Some scenario_show)))
      = Some 200"
    unfolding show_eq
    using mid [THEN conjunct2, THEN conjunct2, THEN conjunct2, THEN mp, OF small]
    unfolding diff .
  from a b c d show ?thesis
    by (intro conjI)
qed

lemma cumulative_time_replicate:
  "cumulative_time (replicate n e) = of_nat n * ucast (next_wait e)"
  by (simp add: cumulative_time_def sum_list_replicate)

text \<open>
  The claim C4 as stated fails once the clock wraps around: for the show of
  \<open>2 ^ 32 + 2\<close> entries with a wait of \<open>2 ^ 32 - 1\<close> ms each, and the window with start
  0 and no stop, the sum of the waits is 18446744078004518910 ms, and the reported
  playback time is 4294967294 ms.
\<close>

theorem total_time_overflow_counterexample:
  "FLAGS_stop (verify_flags 0 0) = 0 \<and>
   fst (VerifyShow (verify_flags 0 0) (Some (map Wellformed long_show))) = EXIT_OK \<and>
   sum_list (map (\<lambda>e. unat (next_wait e)) long_show) - unat (FLAGS_start (verify_flags 0 0))
     = 18446744078004518910 \<and>
   map_option unat (reported_time (VerifyShow (verify_flags 0 0) (Some (map Wellformed long_show))))
     = Some 4294967294 \<and>
   map_option unat (reported_time (VerifyShow (verify_flags 0 0) (Some (map Wellformed long_show))))
     \<noteq> Some (sum_list (map (\<lambda>e. unat (next_wait e)) long_show)
               - unat (FLAGS_start (verify_flags 0 0)))"
proof -
  have z: "FLAGS_stop (verify_flags 0 0) = 0"
    by (simp add: verify_flags_def)
  have ok: "fst (VerifyShow (verify_flags 0 0) (Some (map Wellformed long_show))) = EXIT_OK"
    by (simp add: VerifyShow_Some loop_unbounded_state [OF z])
  have total: "sum_list (map (\<lambda>e. unat (next_wait e)) long_show)
      - unat (FLAGS_start (verify_flags 0 0)) = 18446744078004518910"
    by (simp add: long_show_def show_entry_def verify_flags_def sum_list_replicate)
  have cum: "cumulative_time long_show = 4294967294"
    by (simp add: long_show_def cumulative_time_replicate show_entry_def)
  have rep: "map_option unat (reported_time (VerifyShow (verify_flags 0 0) (Some (map Wellformed long_show))))
     = Some 4294967294"
    by (simp add: reported_time_unbounded [OF z] cum) (simp add: verify_flags_def)
  have ne: "map_option unat (reported_time (VerifyShow (verify_flags 0 0) (Some (map Wellformed long_show))))
     \<noteq> Some (sum_list (map (\<lambda>e. unat (next_wait e)) long_show)
               - unat (FLAGS_start (verify_flags 0 0)))"
    unfolding rep total by simp
  from z ok total rep ne show ?thesis
    by (intro conjI)
qed

section \<open>The exit status of the verifier\<close>



section \<open>The scenarios\<close>

text \<open>
  C1 (scenario B), as the code has it. On the show of the scenarios with start 150 and no
  stop time the verifier reports one frame for universe 1 and one for universe 2, and a
  playback time of 200 ms: the second entry is counted before the clamp is applied, so
  its own increment is clamped together with the first entry's.
\<close>

theorem scenario_B:
  "VerifyShow (verify_flags 150 0) (Some scenario_show) =
     (EXIT_OK, Some \<lparr> warn_start = False, warn_stop = False,
                      frames_by_universe = [(1, 1), (2, 1)], total = 2, total_time = 200 \<rparr>)"
  by (simp add: VerifyShow_def Load_def verify_flags_def scenario_show_def show_entry_def
      loop_Wellformed ClampVerifyFrameCount_def)

text \<open>
  The claim C1 as stated fails: the count reported for universe 1 is not 2.
\<close>

theorem scenario_B_counterexample:
  "reported_count (VerifyShow (verify_flags 150 0) (Some scenario_show)) 1 \<noteq> 2"
  by (simp add: reported_count_def frame_count_def VerifyShow_def Load_def verify_flags_def
      scenario_show_def show_entry_def loop_Wellformed ClampVerifyFrameCount_def)

text \<open>
  C3 (scenario C). On the same show with start 0 and stop 120 the loop counts the first
  two entries and ends at the second one, with the clock set to 120 and the loader state
  still \<open>Entry\<close>; the third entry is never read. The verifier exits with \<^verbatim>\<open>EXIT_OK\<close>
  and reports two frames for universe 1, no counter (hence no frame) for universe 2, and
  a playback time of 120 ms.
\<close>

theorem scenario_C:
  "VerifyShow_loop (verify_flags 0 120) scenario_show 0 False []
     = (Entry (show_entry 1 200), 120, True, [(1, 2)]) \<and>
   VerifyShow (verify_flags 0 120) (Some scenario_show) =
     (EXIT_OK, Some \<lparr> warn_start = False, warn_stop = False,
                      frames_by_universe = [(1, 2)], total = 2, total_time = 120 \<rparr>) \<and>
   reported_count (VerifyShow (verify_flags 0 120) (Some scenario_show)) 1 = 2 \<and>
   reported_count (VerifyShow (verify_flags 0 120) (Some scenario_show)) 2 = 0 \<and>
   reported_time (VerifyShow (verify_flags 0 120) (Some scenario_show)) = Some 120"
  by (simp add: reported_count_def reported_time_def frame_count_def VerifyShow_def Load_def
      verify_flags_def scenario_show_def show_entry_def loop_Wellformed
      ClampVerifyFrameCount_def)

end
